theory Spec2Isabelle
  imports Main "HOL-Library.AList"
begin

section \<open>The analytics event bus: data model\<close>

text \<open>
  The bus lives in three module-level containers: \<open>subscribers\<close> (a \<open>Map\<close> from event
  kind to a \<open>Map\<close> from subscriber identity to callback), \<open>registers\<close> (a plain object from
  participant name to a boolean) and \<open>waitForReadyQueue\<close> (a \<open>Map\<close> from event kind to the
  pending payload).

  A JavaScript \<open>Map\<close> keeps its entries in key insertion order and \<open>set\<close> on an existing key
  replaces the value in place, so each \<open>Map\<close> is an association list, \<open>Map.set\<close> is
  \<open>AList.update\<close> and \<open>Map.get\<close> is \<open>map_of\<close>. \<open>Map.forEach\<close> walks the entry list by
  index and sees entries that are added while it runs. \<open>Map.clear\<close> empties every entry
  but leaves the emptied entries in the entry list, where a \<open>forEach\<close> in progress skips
  them; since \<open>clear\<close> empties all entries at once, the emptied entries are a prefix of
  the entry list and the field \<open>emptied\<close> holds their number.

  The object \<open>registers\<close> is the association list of its own properties. Two names are
  special for a plain object: assigning a boolean to \<open>__proto__\<close> stores nothing, and an
  own property \<open>hasOwnProperty\<close> shadows the method that \<open>register\<close> calls.
\<close>

type_synonym kind = string

text \<open>
  What a callback can throw, as the \<open>catch\<close> handler of \<open>publishEvent\<close> sees it: an \<open>Error\<close>
  with its message and stack, a value that is not an \<open>Error\<close>, or an \<open>Error\<close> whose
  \<open>message\<close> (or \<open>stack\<close>) cannot be read because the getter throws the given value.
\<close>

datatype thrown = ErrorObject string string | OtherValue string | TrappedError thrown

text \<open>
  A callback is its source text (\<open>callback.toString()\<close>, the subscriber identity) and its
  behaviour. Called with a payload, it makes a sequence of calls to the bus and then returns
  (\<open>None\<close>) or throws; what it does may depend on the calls \<open>callback(payload)\<close> made so far
  (the state of its closure). An exception that leaves one of its calls to the bus leaves
  the callback.
\<close>

datatype 'p callback =
  Callback (toString: string)
           (call: "(kind \<times> string \<times> 'p) list \<Rightarrow> 'p \<Rightarrow> 'p op list \<times> thrown option")
and 'p op =
  Subscribe kind "'p callback"
  | Publish kind 'p
  | Register string
  | Ready string

datatype console_line =
  ErrorLine string string string
  | ValueLine thrown string

datatype completion = Normal | Abrupt thrown

text \<open>
  Two fields that the source does not have record what the source does to the outside
  world: \<open>invoked\<close>, the trace of the calls \<open>callback(payload)\<close>, and \<open>console\<close>, the lines
  written with \<open>console.error\<close>.
\<close>

record 'p bus =
  subscribers :: "(kind \<times> (string \<times> 'p callback) list) list"
  registers :: "(string \<times> bool) list"
  waitForReadyQueue :: "(kind \<times> 'p) list"
  emptied :: nat
  invoked :: "(kind \<times> string \<times> 'p) list"
  console :: "console_line list"

definition init :: "'p bus" where
  "init = \<lparr>subscribers = [], registers = [], waitForReadyQueue = [], emptied = 0,
           invoked = [], console = []\<rparr>"

section \<open>The operations\<close>

text \<open>\<open>Object.values(registers).every(Boolean)\<close>.\<close>

definition areRegistersReady :: "'p bus \<Rightarrow> bool" where
  "areRegistersReady s = list_all (\<lambda>v. v) (map snd (registers s))"

text \<open>
  \<open>subscribe\<close>: create the inner \<open>Map\<close> of the event when it is missing, then
  \<open>subscribers.get(event)?.set(callback.toString(), callback)\<close>.
\<close>

definition subscribe :: "kind \<Rightarrow> 'p callback \<Rightarrow> 'p bus \<Rightarrow> completion \<times> 'p bus" where
  "subscribe event callback s =
     (let subs = (if map_of (subscribers s) event = None
                  then AList.update event [] (subscribers s)
                  else subscribers s)
      in case map_of subs event of
           None \<Rightarrow> (Normal, s\<lparr>subscribers := subs\<rparr>)
         | Some m \<Rightarrow>
             (Normal, s\<lparr>subscribers :=
                AList.update event (AList.update (toString callback) callback m) subs\<rparr>))"

text \<open>The assignment \<open>registers[key] = v\<close> on the plain object.\<close>

definition assign :: "string \<Rightarrow> bool \<Rightarrow> (string \<times> bool) list \<Rightarrow> (string \<times> bool) list" where
  "assign key v props = (if key = ''__proto__'' then props else AList.update key v props)"

text \<open>The \<open>TypeError\<close> of calling \<open>registers.hasOwnProperty\<close> when it is a boolean.\<close>

definition not_a_function :: thrown where
  "not_a_function = ErrorObject ''registers.hasOwnProperty is not a function'' ''register''"

text \<open>
  \<open>register(key)\<close>: \<open>if (!registers.hasOwnProperty(key)) registers[key] = false\<close>. It returns
  the closure \<open>ready\<close>, which is the call \<open>Ready key\<close> here.
\<close>

definition register :: "string \<Rightarrow> 'p bus \<Rightarrow> completion \<times> 'p bus" where
  "register key s =
     (if map_of (registers s) ''hasOwnProperty'' \<noteq> None
      then (Abrupt not_a_function, s)
      else if map_of (registers s) key = None
      then (Normal, s\<lparr>registers := assign key False (registers s)\<rparr>)
      else (Normal, s))"

text \<open>The first statement of \<open>ready\<close>: \<open>registers[key] = true\<close>.\<close>

definition mark_ready :: "string \<Rightarrow> 'p bus \<Rightarrow> 'p bus" where
  "mark_ready key s = s\<lparr>registers := assign key True (registers s)\<rparr>"

text \<open>
  The \<open>catch (error)\<close> block of \<open>publishEvent\<close>. It reads \<open>error.message\<close> and \<open>error.stack\<close>
  outside any \<open>try\<close>, so an error that cannot be read leaves the block.
\<close>

definition catch_handler :: "thrown \<Rightarrow> string \<Rightarrow> 'p bus \<Rightarrow> completion \<times> 'p bus" where
  "catch_handler error subscriber s =
     (case error of
        ErrorObject message stack \<Rightarrow>
          (Normal, s\<lparr>console := console s @ [ErrorLine message subscriber stack]\<rparr>)
      | OtherValue v \<Rightarrow>
          (Normal, s\<lparr>console := console s @ [ValueLine error subscriber]\<rparr>)
      | TrappedError x \<Rightarrow> (Abrupt x, s))"

text \<open>\<open>subscribers.get(event) ?? new Map()\<close>.\<close>

definition subscribers_of :: "kind \<Rightarrow> 'p bus \<Rightarrow> (string \<times> 'p callback) list" where
  "subscribers_of event s =
     (case map_of (subscribers s) event of None \<Rightarrow> [] | Some m \<Rightarrow> m)"

text \<open>\<open>waitForReadyQueue.clear()\<close>.\<close>

definition clear :: "'p bus \<Rightarrow> 'p bus" where
  "clear s = s\<lparr>waitForReadyQueue := [],
               emptied := emptied s + length (waitForReadyQueue s)\<rparr>"

text \<open>
  Callbacks call the bus and the bus calls callbacks, so the operations are one recursive
  function over the piece of code to run:
  \<^item> \<open>Call c\<close>: one of the four public functions;
  \<^item> \<open>PublishEvent\<close>: the function \<open>publishEvent\<close>;
  \<^item> \<open>SubscribersForEach event payload i\<close>: the \<open>forEach\<close> of \<open>publishEvent\<close> from entry \<open>i\<close>;
  \<^item> \<open>Body\<close>: the body of that \<open>forEach\<close>, \<open>try { callback(payload) } catch (error) { ... }\<close>;
  \<^item> \<open>Statements\<close>: the calls to the bus inside a callback;
  \<^item> \<open>QueueForEach i\<close>: the \<open>forEach\<close> over \<open>waitForReadyQueue\<close> in \<open>ready\<close> from entry \<open>i\<close>.

  The result \<open>None\<close> means that the code does not return (callbacks that call each other for
  ever). An exception that leaves a \<open>forEach\<close> body ends the \<open>forEach\<close> and leaves the
  function around it; in \<open>ready\<close> that skips \<open>clear()\<close>.
\<close>

datatype 'p task =
  Call "'p op"
  | PublishEvent kind 'p
  | SubscribersForEach kind 'p nat
  | Body kind 'p string "'p callback"
  | Statements "'p op list"
  | QueueForEach nat

partial_function (option) perform :: "'p task \<Rightarrow> 'p bus \<Rightarrow> (completion \<times> 'p bus) option" where
  "perform t s =
     (case t of
        Call (Subscribe event callback) \<Rightarrow> Some (subscribe event callback s)
      | Call (Publish event payload) \<Rightarrow>
          (if \<not> areRegistersReady s
           then Some (Normal,
                  s\<lparr>waitForReadyQueue := AList.update event payload (waitForReadyQueue s)\<rparr>)
           else perform (PublishEvent event payload) s)
      | Call (Register key) \<Rightarrow> Some (register key s)
      | Call (Ready key) \<Rightarrow>
          (let s1 = mark_ready key s
           in if areRegistersReady s1 \<and> length (waitForReadyQueue s1) > 0
              then Option.bind (perform (QueueForEach 0) s1)
                     (\<lambda>r. case r of
                        (Normal, s2) \<Rightarrow> Some (Normal, clear s2)
                      | (Abrupt e, s2) \<Rightarrow> Some (Abrupt e, s2))
              else Some (Normal, s1))
      | PublishEvent event payload \<Rightarrow> perform (SubscribersForEach event payload 0) s
      | SubscribersForEach event payload i \<Rightarrow>
          (if i < length (subscribers_of event s)
           then Option.bind
                  (perform (Body event payload (fst (subscribers_of event s ! i))
                                               (snd (subscribers_of event s ! i))) s)
                  (\<lambda>r. case r of
                     (Normal, s') \<Rightarrow> perform (SubscribersForEach event payload (i + 1)) s'
                   | (Abrupt e, s') \<Rightarrow> Some (Abrupt e, s'))
           else Some (Normal, s))
      | Body event payload subscriber callback \<Rightarrow>
          Option.bind
            (perform (Statements (fst (call callback (invoked s) payload)))
                     (s\<lparr>invoked := invoked s @ [(event, subscriber, payload)]\<rparr>))
            (\<lambda>r. case r of
               (Abrupt error, s') \<Rightarrow> Some (catch_handler error subscriber s')
             | (Normal, s') \<Rightarrow>
                 (case snd (call callback (invoked s) payload) of
                    None \<Rightarrow> Some (Normal, s')
                  | Some error \<Rightarrow> Some (catch_handler error subscriber s')))
      | Statements cs \<Rightarrow>
          (case cs of
             [] \<Rightarrow> Some (Normal, s)
           | c # cs' \<Rightarrow>
               Option.bind (perform (Call c) s)
                 (\<lambda>r. case r of
                    (Normal, s') \<Rightarrow> perform (Statements cs') s'
                  | (Abrupt e, s') \<Rightarrow> Some (Abrupt e, s')))
      | QueueForEach i \<Rightarrow>
          (let j = max i (emptied s) - emptied s
           in if j < length (waitForReadyQueue s)
              then Option.bind
                     (perform (PublishEvent (fst (waitForReadyQueue s ! j))
                                            (snd (waitForReadyQueue s ! j))) s)
                     (\<lambda>r. case r of
                        (Normal, s') \<Rightarrow> perform (QueueForEach (max i (emptied s) + 1)) s'
                      | (Abrupt e, s') \<Rightarrow> Some (Abrupt e, s'))
              else Some (Normal, s)))"

text \<open>The public functions by their names in the source.\<close>

abbreviation exec :: "'p op \<Rightarrow> 'p bus \<Rightarrow> (completion \<times> 'p bus) option" where
  "exec c s \<equiv> perform (Call c) s"

abbreviation publish :: "kind \<Rightarrow> 'p \<Rightarrow> 'p bus \<Rightarrow> (completion \<times> 'p bus) option" where
  "publish event payload s \<equiv> perform (Call (Publish event payload)) s"

abbreviation publishEvent :: "kind \<Rightarrow> 'p \<Rightarrow> 'p bus \<Rightarrow> (completion \<times> 'p bus) option" where
  "publishEvent event payload s \<equiv> perform (PublishEvent event payload) s"

abbreviation ready :: "string \<Rightarrow> 'p bus \<Rightarrow> (completion \<times> 'p bus) option" where
  "ready key s \<equiv> perform (Call (Ready key)) s"

section \<open>Sequences of calls\<close>

text \<open>
  Each call has its own caller: the next call runs on the state the previous one left,
  also when the previous one threw.
\<close>

fun run :: "'p op list \<Rightarrow> 'p bus \<Rightarrow> 'p bus option" where
  "run [] s = Some s"
| "run (c # cs) s = (case perform (Call c) s of None \<Rightarrow> None | Some (r, s') \<Rightarrow> run cs s')"

text \<open>The gate is closed before the calls and after each of them.\<close>

fun stays_closed :: "'p op list \<Rightarrow> 'p bus \<Rightarrow> bool" where
  "stays_closed [] s = (\<not> areRegistersReady s)"
| "stays_closed (c # cs) s =
     (\<not> areRegistersReady s \<and>
      (case exec c s of None \<Rightarrow> False | Some (r, s') \<Rightarrow> stays_closed cs s'))"

section \<open>Notions used in the statements\<close>

text \<open>
  A callback is \<open>quiet\<close> when it never calls the bus, \<open>inspectable\<close> when whatever it throws
  can be read by the \<open>catch\<close> handler, and \<open>plain\<close> when it is both. A sequence of calls or a
  state is plain when the callbacks it subscribes or holds are.
\<close>

definition quiet :: "'p callback \<Rightarrow> bool" where
  "quiet callback \<longleftrightarrow> (\<forall>h p. fst (call callback h p) = [])"

definition inspectable :: "'p callback \<Rightarrow> bool" where
  "inspectable callback \<longleftrightarrow> (\<forall>h p x. snd (call callback h p) \<noteq> Some (TrappedError x))"

definition plain :: "'p callback \<Rightarrow> bool" where
  "plain callback \<longleftrightarrow> quiet callback \<and> inspectable callback"

fun plain_op :: "'p op \<Rightarrow> bool" where
  "plain_op (Subscribe event callback) = plain callback"
| "plain_op (Publish event payload) = True"
| "plain_op (Register key) = True"
| "plain_op (Ready key) = True"

definition plain_bus :: "'p bus \<Rightarrow> bool" where
  "plain_bus s \<longleftrightarrow>
     (\<forall>slot \<in> set (subscribers s). \<forall>entry \<in> set (snd slot). plain (snd entry))"

text \<open>The names that a plain object treats like any other.\<close>

definition ordinary :: "string \<Rightarrow> bool" where
  "ordinary key \<longleftrightarrow> key \<noteq> ''__proto__'' \<and> key \<noteq> ''hasOwnProperty''"

fun ordinary_op :: "'p op \<Rightarrow> bool" where
  "ordinary_op (Subscribe event callback) = True"
| "ordinary_op (Publish event payload) = True"
| "ordinary_op (Register key) = ordinary key"
| "ordinary_op (Ready key) = ordinary key"

text \<open>
  What one delivery of an event calls when nothing interferes: every entry of the event's
  subscriber \<open>Map\<close>, in the order of the \<open>Map\<close>, with the payload; and what a flush of a
  queue calls.
\<close>

definition deliveries :: "kind \<Rightarrow> 'p \<Rightarrow> 'p bus \<Rightarrow> (kind \<times> string \<times> 'p) list" where
  "deliveries event payload s =
     map (\<lambda>entry. (event, fst entry, payload)) (subscribers_of event s)"

definition flush_deliveries :: "(kind \<times> 'p) list \<Rightarrow> 'p bus \<Rightarrow> (kind \<times> string \<times> 'p) list" where
  "flush_deliveries q s = concat (map (\<lambda>(event, payload). deliveries event payload s) q)"

text \<open>Two states with the same containers.\<close>

definition same_bus :: "'p bus \<Rightarrow> 'p bus \<Rightarrow> bool" where
  "same_bus s' s \<longleftrightarrow> registers s' = registers s \<and> subscribers s' = subscribers s \<and>
     waitForReadyQueue s' = waitForReadyQueue s \<and> emptied s' = emptied s"

text \<open>
  The invariant of the containers under plain callbacks: no key occurs twice in a \<open>Map\<close>
  or in the object, and nothing is pending while the gate is open.
\<close>

definition wf :: "'p bus \<Rightarrow> bool" where
  "wf s \<longleftrightarrow>
     distinct (map fst (registers s)) \<and>
     distinct (map fst (waitForReadyQueue s)) \<and>
     (\<forall>event. distinct (map fst (subscribers_of event s))) \<and>
     (areRegistersReady s \<longrightarrow> waitForReadyQueue s = [])"

text \<open>
  What holds of the containers whatever the callbacks do: no key occurs twice in a \<open>Map\<close>
  or in the object. And what every piece of code keeps from the state it starts in to the
  state it leaves: that, the keys of every subscriber \<open>Map\<close>, and every flag that is \<open>true\<close>.
\<close>

definition keys_distinct :: "'p bus \<Rightarrow> bool" where
  "keys_distinct s \<longleftrightarrow>
     distinct (map fst (registers s)) \<and>
     distinct (map fst (waitForReadyQueue s)) \<and>
     (\<forall>event. distinct (map fst (subscribers_of event s)))"

definition evolves :: "'p bus \<Rightarrow> 'p bus \<Rightarrow> bool" where
  "evolves s s' \<longleftrightarrow>
     (keys_distinct s \<longrightarrow> keys_distinct s') \<and>
     (\<forall>event. set (map fst (subscribers_of event s)) \<subseteq> set (map fst (subscribers_of event s'))) \<and>
     (\<forall>key. map_of (registers s) key = Some True \<longrightarrow> map_of (registers s') key = Some True)"

text \<open>The \<open>publish\<close> calls of a sequence, in order.\<close>

fun publishes :: "'p op list \<Rightarrow> (kind \<times> 'p) list" where
  "publishes [] = []"
| "publishes (Publish event payload # cs) = (event, payload) # publishes cs"
| "publishes (Subscribe event callback # cs) = publishes cs"
| "publishes (Register key # cs) = publishes cs"
| "publishes (Ready key # cs) = publishes cs"

text \<open>
  The order in which the elements of a list first occur: the head, then the first
  occurrences of the rest without the head.
\<close>

fun first_occurrences :: "'a list \<Rightarrow> 'a list" where
  "first_occurrences [] = []"
| "first_occurrences (x # xs) = x # removeAll x (first_occurrences xs)"

text \<open>The calls \<open>callback(payload)\<close> made on the way from state \<open>s\<close> to state \<open>s'\<close>.\<close>

definition new_calls :: "'p bus \<Rightarrow> 'p bus \<Rightarrow> (kind \<times> string \<times> 'p) list" where
  "new_calls s s' = drop (length (invoked s)) (invoked s')"

text \<open>\<open>waitForReadyQueue.set\<close> for each pair of a list, in order.\<close>

definition enqueue_all :: "(kind \<times> 'p) list \<Rightarrow> (kind \<times> 'p) list \<Rightarrow> (kind \<times> 'p) list" where
  "enqueue_all xs q = fold (\<lambda>(event, payload). AList.update event payload) xs q"

text \<open>
  The specification's order of the pending pairs: the kinds in the order in which each
  was first published, each with the payload of its last publish.
\<close>

definition pending_in_order :: "(kind \<times> 'p) list \<Rightarrow> (kind \<times> 'p) list" where
  "pending_in_order xs =
     map (\<lambda>event. (event, the (map_of (rev xs) event))) (first_occurrences (map fst xs))"

section \<open>Concrete callbacks and states\<close>

text \<open>
  \<open>listener\<close> returns; \<open>thrower\<close> throws an \<open>Error\<close>; \<open>trapped\<close> throws an \<open>Error\<close> whose
  \<open>message\<close> getter throws; \<open>reenter\<close> calls the \<open>ready\<close> of participant \<open>x\<close> the first time it
  is called and does nothing afterwards.
\<close>

definition listener :: "nat callback" where
  "listener = Callback ''(p) => { seen.push(p) }'' (\<lambda>h p. ([], None))"

definition thrower :: "nat callback" where
  "thrower = Callback ''() => { throw new Error() }''
               (\<lambda>h p. ([], Some (ErrorObject ''boom'' ''at thrower'')))"

definition trapped :: "nat callback" where
  "trapped = Callback ''() => { throw trappedError }''
               (\<lambda>h p. ([], Some (TrappedError (OtherValue ''getter''))))"

definition reenter :: "nat callback" where
  "reenter = Callback ''() => { if (first) readyX() }''
               (\<lambda>h p. (if ''() => { if (first) readyX() }'' \<in> set (map (fst \<circ> snd) h)
                        then [] else [Ready ''x''], None))"

definition pixels_registered :: "nat bus" where
  "pixels_registered = the (run [Register ''pixelA'', Register ''pixelB''] init)"

definition first_published :: "nat bus" where
  "first_published = snd (the (publish ''cart_updated'' 1 pixels_registered))"

definition before_opening :: "nat bus" where
  "before_opening =
     the (run [Subscribe ''cart_updated'' listener, Ready ''pixelA''] first_published)"

definition late_subscribed :: "nat bus" where
  "late_subscribed = the (run [Subscribe ''cart_updated'' listener] first_published)"

definition second_published :: "nat bus" where
  "second_published = snd (the (publish ''cart_updated'' 2 late_subscribed))"

definition second_before_opening :: "nat bus" where
  "second_before_opening = the (run [Ready ''pixelA''] second_published)"

definition two_kinds :: "nat bus" where
  "two_kinds = the (run [Subscribe ''a'' listener, Subscribe ''b'' listener, Register ''x''] init)"

definition three_publishes :: "nat bus" where
  "three_publishes = the (run [Publish ''a'' 1, Publish ''b'' 2, Publish ''a'' 3] two_kinds)"

section \<open>The code of each function\<close>

text \<open>The equation of each piece of code, read off the definition of \<open>perform\<close>.\<close>

lemma perform_Subscribe: "perform (Call (Subscribe event callback)) s = Some (subscribe event callback s)"
  by (subst perform.simps) simp

lemma perform_Publish: "perform (Call (Publish event payload)) s =
  (if \<not> areRegistersReady s
           then Some (Normal,
                  s\<lparr>waitForReadyQueue := AList.update event payload (waitForReadyQueue s)\<rparr>)
           else perform (PublishEvent event payload) s)"
  by (subst perform.simps) simp

lemma perform_Register: "perform (Call (Register key)) s = Some (register key s)"
  by (subst perform.simps) simp

lemma perform_Ready: "perform (Call (Ready key)) s =
          (let s1 = mark_ready key s
           in if areRegistersReady s1 \<and> length (waitForReadyQueue s1) > 0
              then Option.bind (perform (QueueForEach 0) s1)
                     (\<lambda>r. case r of
                        (Normal, s2) \<Rightarrow> Some (Normal, clear s2)
                      | (Abrupt e, s2) \<Rightarrow> Some (Abrupt e, s2))
              else Some (Normal, s1))"
  by (subst perform.simps) simp

lemma perform_PublishEvent: "perform (PublishEvent event payload) s = perform (SubscribersForEach event payload 0) s"
  by (subst perform.simps) simp

lemma perform_SubscribersForEach: "perform (SubscribersForEach event payload i) s =
          (if i < length (subscribers_of event s)
           then Option.bind
                  (perform (Body event payload (fst (subscribers_of event s ! i))
                                               (snd (subscribers_of event s ! i))) s)
                  (\<lambda>r. case r of
                     (Normal, s') \<Rightarrow> perform (SubscribersForEach event payload (i + 1)) s'
                   | (Abrupt e, s') \<Rightarrow> Some (Abrupt e, s'))
           else Some (Normal, s))"
  by (subst perform.simps) simp

lemma perform_Body: "perform (Body event payload subscriber callback) s =
          Option.bind
            (perform (Statements (fst (call callback (invoked s) payload)))
                     (s\<lparr>invoked := invoked s @ [(event, subscriber, payload)]\<rparr>))
            (\<lambda>r. case r of
               (Abrupt error, s') \<Rightarrow> Some (catch_handler error subscriber s')
             | (Normal, s') \<Rightarrow>
                 (case snd (call callback (invoked s) payload) of
                    None \<Rightarrow> Some (Normal, s')
                  | Some error \<Rightarrow> Some (catch_handler error subscriber s')))"
  by (subst perform.simps) simp

lemma perform_Statements_Nil: "perform (Statements []) s = Some (Normal, s)"
  by (subst perform.simps) simp

lemma perform_Statements_Cons: "perform (Statements (c # cs')) s =
               Option.bind (perform (Call c) s)
                 (\<lambda>r. case r of
                    (Normal, s') \<Rightarrow> perform (Statements cs') s'
                  | (Abrupt e, s') \<Rightarrow> Some (Abrupt e, s'))"
  by (subst perform.simps) simp

lemma perform_QueueForEach: "perform (QueueForEach i) s =
          (let j = max i (emptied s) - emptied s
           in if j < length (waitForReadyQueue s)
              then Option.bind
                     (perform (PublishEvent (fst (waitForReadyQueue s ! j))
                                            (snd (waitForReadyQueue s ! j))) s)
                     (\<lambda>r. case r of
                        (Normal, s') \<Rightarrow> perform (QueueForEach (max i (emptied s) + 1)) s'
                      | (Abrupt e, s') \<Rightarrow> Some (Abrupt e, s'))
              else Some (Normal, s))"
  by (subst perform.simps) simp

lemmas perform_eqs = perform_Subscribe perform_Publish perform_Register perform_Ready
  perform_PublishEvent perform_SubscribersForEach perform_Body perform_Statements_Nil
  perform_Statements_Cons perform_QueueForEach

lemmas ev = perform_eqs subscribe_def register_def assign_def mark_ready_def clear_def
  areRegistersReady_def init_def subscribers_of_def catch_handler_def new_calls_def
  listener_def thrower_def trapped_def reenter_def

lemmas pl = plain_def quiet_def inspectable_def listener_def thrower_def

lemmas sc = pixels_registered_def first_published_def before_opening_def late_subscribed_def
  second_published_def second_before_opening_def two_kinds_def three_publishes_def

section \<open>Plain callbacks\<close>

lemma body_plain:
  assumes "plain callback"
  shows "\<exists>s'. perform (Body event payload subscriber callback) s = Some (Normal, s') \<and>
           invoked s' = invoked s @ [(event, subscriber, payload)] \<and> same_bus s' s"
proof -
  define s0 where "s0 = s\<lparr>invoked := invoked s @ [(event, subscriber, payload)]\<rparr>"
  have q: "fst (call callback (invoked s) payload) = []"
    using assms by (simp add: plain_def quiet_def)
  have st: "perform (Statements (fst (call callback (invoked s) payload))) s0 = Some (Normal, s0)"
    unfolding q by (rule perform_Statements_Nil)
  have unf: "perform (Body event payload subscriber callback) s =
      (case snd (call callback (invoked s) payload) of
         None \<Rightarrow> Some (Normal, s0)
       | Some error \<Rightarrow> Some (catch_handler error subscriber s0))"
    unfolding perform_Body s0_def [symmetric] st by simp
  have f0: "invoked s0 = invoked s @ [(event, subscriber, payload)]" "same_bus s0 s"
    by (simp_all add: s0_def same_bus_def)
  show ?thesis
  proof (cases "snd (call callback (invoked s) payload)")
    case None
    then show ?thesis using unf f0 by simp
  next
    case (Some error)
    have nt: "\<forall>x. error \<noteq> TrappedError x"
      using assms Some by (auto simp: plain_def inspectable_def)
    show ?thesis
    proof (cases error)
      case (ErrorObject m st)
      then show ?thesis using unf Some f0 by (simp add: catch_handler_def same_bus_def)
    next
      case (OtherValue v)
      then show ?thesis using unf Some f0 by (simp add: catch_handler_def same_bus_def)
    next
      case (TrappedError x)
      then show ?thesis using nt by simp
    qed
  qed
qed

lemma subscribers_of_same: "same_bus s' s \<Longrightarrow> subscribers_of e s' = subscribers_of e s"
  by (simp add: subscribers_of_def same_bus_def)

lemma plain_bus_same: "same_bus s' s \<Longrightarrow> plain_bus s \<Longrightarrow> plain_bus s'"
  by (simp add: plain_bus_def same_bus_def)

lemma same_bus_trans: "same_bus s'' s' \<Longrightarrow> same_bus s' s \<Longrightarrow> same_bus s'' s"
  by (simp add: same_bus_def)

lemma plain_entry:
  assumes "plain_bus s" and "i < length (subscribers_of e s)"
  shows "plain (snd (subscribers_of e s ! i))"
proof (cases "map_of (subscribers s) e")
  case None
  then show ?thesis using assms(2) by (simp add: subscribers_of_def)
next
  case (Some m)
  then have "(e, m) \<in> set (subscribers s)" by (rule map_of_SomeD)
  moreover have "subscribers_of e s = m" using Some by (simp add: subscribers_of_def)
  ultimately show ?thesis using assms unfolding plain_bus_def by force
qed

lemma forEach_plain:
  assumes "plain_bus s"
  shows "\<exists>s'. perform (SubscribersForEach e p i) s = Some (Normal, s') \<and>
           invoked s' = invoked s @ map (\<lambda>entry. (e, fst entry, p)) (drop i (subscribers_of e s)) \<and>
           same_bus s' s"
  using assms
proof (induction "length (subscribers_of e s) - i" arbitrary: i s)
  case 0
  then have "\<not> i < length (subscribers_of e s)" by simp
  then show ?case by (simp add: perform_SubscribersForEach same_bus_def)
next
  case (Suc n)
  then have lt: "i < length (subscribers_of e s)" by simp
  have pl: "plain (snd (subscribers_of e s ! i))" using Suc.prems lt by (rule plain_entry)
  obtain s1 where b: "perform (Body e p (fst (subscribers_of e s ! i))
      (snd (subscribers_of e s ! i))) s = Some (Normal, s1)"
    and i1: "invoked s1 = invoked s @ [(e, fst (subscribers_of e s ! i), p)]"
    and sb1: "same_bus s1 s"
    using body_plain [OF pl] by blast
  have subs1: "subscribers_of e s1 = subscribers_of e s" using sb1 by (rule subscribers_of_same)
  have p1: "plain_bus s1" using sb1 Suc.prems by (rule plain_bus_same)
  have n: "n = length (subscribers_of e s1) - (i + 1)" using Suc.hyps(2) subs1 by simp
  obtain s2 where r: "perform (SubscribersForEach e p (i + 1)) s1 = Some (Normal, s2)"
    and i2: "invoked s2 = invoked s1 @ map (\<lambda>entry. (e, fst entry, p))
        (drop (i + 1) (subscribers_of e s1))"
    and sb2: "same_bus s2 s1"
    using Suc.hyps(1) [OF n p1] by blast
  have unf: "perform (SubscribersForEach e p i) s = Some (Normal, s2)"
    using r by (subst perform_SubscribersForEach) (simp add: lt b)
  have "drop i (subscribers_of e s) = subscribers_of e s ! i # drop (i + 1) (subscribers_of e s)"
    using lt by (simp add: Cons_nth_drop_Suc)
  then have "invoked s2 = invoked s @ map (\<lambda>entry. (e, fst entry, p)) (drop i (subscribers_of e s))"
    using i1 i2 subs1 by simp
  then show ?case using unf same_bus_trans [OF sb2 sb1] by blast
qed

lemma publishEvent_plain:
  assumes "plain_bus s"
  shows "\<exists>s'. publishEvent e p s = Some (Normal, s') \<and>
           invoked s' = invoked s @ deliveries e p s \<and> same_bus s' s"
  using forEach_plain [OF assms, of e p 0]
  by (simp add: perform_PublishEvent deliveries_def)

lemma flush_deliveries_same: "same_bus s' s \<Longrightarrow> flush_deliveries q s' = flush_deliveries q s"
  by (simp add: flush_deliveries_def deliveries_def subscribers_of_def same_bus_def)

lemma queueForEach_plain:
  assumes "plain_bus s"
  shows "\<exists>s'. perform (QueueForEach i) s = Some (Normal, s') \<and>
           invoked s' = invoked s @
             flush_deliveries (drop (max i (emptied s) - emptied s) (waitForReadyQueue s)) s \<and>
           same_bus s' s"
  using assms
proof (induction "length (waitForReadyQueue s) - (max i (emptied s) - emptied s)" arbitrary: i s)
  case 0
  then have "\<not> max i (emptied s) - emptied s < length (waitForReadyQueue s)" by simp
  then show ?case
    by (simp add: perform_QueueForEach same_bus_def flush_deliveries_def Let_def)
next
  case (Suc n)
  define j where "j = max i (emptied s) - emptied s"
  have lt: "j < length (waitForReadyQueue s)" using Suc.hyps(2) by (simp add: j_def)
  obtain ev pl where x: "waitForReadyQueue s ! j = (ev, pl)" by (cases "waitForReadyQueue s ! j")
  obtain s1 where b: "publishEvent ev pl s = Some (Normal, s1)"
    and i1: "invoked s1 = invoked s @ deliveries ev pl s"
    and sb1: "same_bus s1 s"
    using publishEvent_plain [OF Suc.prems] by blast
  have p1: "plain_bus s1" using sb1 Suc.prems by (rule plain_bus_same)
  have q1: "waitForReadyQueue s1 = waitForReadyQueue s" "emptied s1 = emptied s"
    using sb1 by (simp_all add: same_bus_def)
  have j1: "max (max i (emptied s) + 1) (emptied s1) - emptied s1 = j + 1"
    unfolding q1 j_def by simp
  have n: "n = length (waitForReadyQueue s1) - (max (max i (emptied s) + 1) (emptied s1) - emptied s1)"
    unfolding j1 using Suc.hyps(2) q1 by (simp add: j_def)
  obtain s2 where r: "perform (QueueForEach (max i (emptied s) + 1)) s1 = Some (Normal, s2)"
    and i2: "invoked s2 = invoked s1 @
        flush_deliveries (drop (j + 1) (waitForReadyQueue s1)) s1"
    and sb2: "same_bus s2 s1"
    using Suc.hyps(1) [OF n p1] unfolding j1 by blast
  have unf: "perform (QueueForEach i) s = Some (Normal, s2)"
    using r by (subst perform_QueueForEach) (simp add: Let_def j_def [symmetric] lt x b)
  have d: "drop j (waitForReadyQueue s) = (ev, pl) # drop (j + 1) (waitForReadyQueue s)"
    using Cons_nth_drop_Suc [OF lt] x by simp
  have "invoked s2 = invoked s @ flush_deliveries (drop j (waitForReadyQueue s)) s"
    unfolding d using i1 i2 q1 flush_deliveries_same [OF sb1]
    by (simp add: flush_deliveries_def)
  then show ?case using unf same_bus_trans [OF sb2 sb1] unfolding j_def by blast
qed

lemma subscribe_effect:
  "fst (subscribe e cb s) = Normal"
  "registers (snd (subscribe e cb s)) = registers s"
  "waitForReadyQueue (snd (subscribe e cb s)) = waitForReadyQueue s"
  "invoked (snd (subscribe e cb s)) = invoked s"
  "subscribers_of e' (snd (subscribe e cb s)) =
     (if e' = e then AList.update (toString cb) cb (subscribers_of e s) else subscribers_of e' s)"
  by (cases "map_of (subscribers s) e";
      simp add: subscribe_def subscribers_of_def Let_def update_conv')+

lemma in_update: "x \<in> set (AList.update k v al) \<Longrightarrow> x = (k, v) \<or> x \<in> set al"
  by (induction al) (auto split: if_splits)

lemma subscribe_slots:
  assumes "slot \<in> set (subscribers (snd (subscribe e cb s)))" and "entry \<in> set (snd slot)"
  shows "entry = (toString cb, cb) \<or> (\<exists>slot' \<in> set (subscribers s). entry \<in> set (snd slot'))"
proof (cases "map_of (subscribers s) e")
  case None
  then have "subscribers (snd (subscribe e cb s)) =
      AList.update e [(toString cb, cb)] (AList.update e [] (subscribers s))"
    by (simp add: subscribe_def Let_def update_conv')
  then have "slot \<in> set (AList.update e [(toString cb, cb)] (subscribers s))"
    using assms(1) by simp
  then have "slot = (e, [(toString cb, cb)]) \<or> slot \<in> set (subscribers s)" by (rule in_update)
  then show ?thesis using assms(2) by auto
next
  case (Some m)
  then have "subscribers (snd (subscribe e cb s)) =
      AList.update e (AList.update (toString cb) cb m) (subscribers s)"
    by (simp add: subscribe_def Let_def)
  then have "slot = (e, AList.update (toString cb) cb m) \<or> slot \<in> set (subscribers s)"
    using assms(1) in_update by metis
  then show ?thesis
  proof
    assume "slot = (e, AList.update (toString cb) cb m)"
    then have "entry = (toString cb, cb) \<or> entry \<in> set m"
      using assms(2) in_update by fastforce
    moreover have "(e, m) \<in> set (subscribers s)" using Some by (rule map_of_SomeD)
    ultimately show ?thesis by force
  next
    assume "slot \<in> set (subscribers s)"
    then show ?thesis using assms(2) by blast
  qed
qed

lemma plain_subscribe: "plain_bus s \<Longrightarrow> plain cb \<Longrightarrow> plain_bus (snd (subscribe e cb s))"
  unfolding plain_bus_def using subscribe_slots by fastforce

lemma register_effect:
  "subscribers (snd (register key s)) = subscribers s"
  "waitForReadyQueue (snd (register key s)) = waitForReadyQueue s"
  "invoked (snd (register key s)) = invoked s"
  "registers (snd (register key s)) =
     (if map_of (registers s) ''hasOwnProperty'' = None \<and> map_of (registers s) key = None
      then assign key False (registers s) else registers s)"
  by (simp_all add: register_def)

lemma publish_closed:
  "\<not> areRegistersReady s \<Longrightarrow>
     publish e p s =
       Some (Normal, s\<lparr>waitForReadyQueue := AList.update e p (waitForReadyQueue s)\<rparr>)"
  by (simp add: perform_Publish)

lemma publish_open: "areRegistersReady s \<Longrightarrow> publish e p s = publishEvent e p s"
  by (simp add: perform_Publish)

lemma areRegistersReady_cong:
  "registers s' = registers s \<Longrightarrow> areRegistersReady s' = areRegistersReady s"
  by (simp add: areRegistersReady_def)

lemma publish_plain:
  assumes "plain_bus s"
  shows "\<exists>s'. publish e p s = Some (Normal, s') \<and>
     registers s' = registers s \<and> subscribers s' = subscribers s \<and>
     waitForReadyQueue s' =
       (if areRegistersReady s then waitForReadyQueue s
        else AList.update e p (waitForReadyQueue s)) \<and>
     invoked s' =
       (if areRegistersReady s then invoked s @ deliveries e p s else invoked s)"
proof (cases "areRegistersReady s")
  case True
  then show ?thesis
    using publishEvent_plain [OF assms, of e p] by (auto simp: publish_open same_bus_def)
next
  case False
  then show ?thesis by (simp add: publish_closed)
qed

lemma ready_plain:
  assumes "plain_bus s"
  shows "\<exists>s'. ready key s = Some (Normal, s') \<and>
     registers s' = assign key True (registers s) \<and> subscribers s' = subscribers s \<and>
     areRegistersReady s' = areRegistersReady (mark_ready key s) \<and>
     waitForReadyQueue s' =
       (if areRegistersReady (mark_ready key s) then [] else waitForReadyQueue s) \<and>
     invoked s' =
       (if areRegistersReady (mark_ready key s)
        then invoked s @ flush_deliveries (waitForReadyQueue s) s else invoked s)"
proof -
  define s1 where "s1 = mark_ready key s"
  have s1: "invoked s1 = invoked s" "waitForReadyQueue s1 = waitForReadyQueue s"
    "subscribers s1 = subscribers s" "registers s1 = assign key True (registers s)"
    by (simp_all add: s1_def mark_ready_def)
  have p1: "plain_bus s1" using assms by (simp add: plain_bus_def s1)
  have fd: "flush_deliveries (waitForReadyQueue s1) s1 = flush_deliveries (waitForReadyQueue s) s"
    by (simp add: s1 flush_deliveries_def deliveries_def subscribers_of_def)
  show ?thesis
  proof (cases "areRegistersReady s1 \<and> waitForReadyQueue s1 \<noteq> []")
    case True
    obtain s2 where r: "perform (QueueForEach 0) s1 = Some (Normal, s2)"
      and i2: "invoked s2 = invoked s1 @ flush_deliveries (waitForReadyQueue s1) s1"
      and sb: "same_bus s2 s1"
      using queueForEach_plain [OF p1, of 0] by auto
    have res: "ready key s = Some (Normal, clear s2)"
      using True r by (simp add: perform_Ready s1_def [symmetric])
    have "registers (clear s2) = registers s1" "subscribers (clear s2) = subscribers s1"
      "waitForReadyQueue (clear s2) = []" "invoked (clear s2) = invoked s2"
      using sb by (simp_all add: clear_def same_bus_def)
    then show ?thesis
      using res True i2 fd s1 areRegistersReady_cong [of "clear s2" s1]
      unfolding s1_def [symmetric] by simp
  next
    case False
    then have res: "ready key s = Some (Normal, s1)"
      by (auto simp: perform_Ready s1_def [symmetric])
    show ?thesis
      using res False s1 unfolding s1_def [symmetric]
      by (auto simp: flush_deliveries_def)
  qed
qed

lemma run_append: "run (cs @ ds) s = Option.bind (run cs s) (run ds)"
  by (induction cs arbitrary: s) (simp_all split: option.splits)

lemma areRegistersReady_iff:
  "areRegistersReady s \<longleftrightarrow> (\<forall>x \<in> set (registers s). snd x)"
  by (simp add: areRegistersReady_def list_all_iff)

lemma update_False_closed:
  "registers s' = AList.update key False rs \<Longrightarrow> \<not> areRegistersReady s'"
proof -
  assume r: "registers s' = AList.update key False rs"
  have "map_of (AList.update key False rs) key = Some False"
    by (simp add: update_conv')
  then have "(key, False) \<in> set (registers s')"
    using r by (simp add: map_of_SomeD)
  then show ?thesis unfolding areRegistersReady_iff by force
qed

lemma subscribers_of_cong: "subscribers s' = subscribers s \<Longrightarrow> subscribers_of e s' = subscribers_of e s"
  by (simp add: subscribers_of_def)

lemma distinct_assign: "distinct (map fst rs) \<Longrightarrow> distinct (map fst (assign key v rs))"
  by (simp add: assign_def distinct_update)

lemma wf_init: "wf init"
  by (simp add: wf_def init_def subscribers_of_def)

lemma plain_init: "plain_bus init"
  by (simp add: plain_bus_def init_def)

lemma wf_subscribe: "wf s \<Longrightarrow> wf (snd (subscribe e cb s))"
  unfolding wf_def
  using areRegistersReady_cong [OF subscribe_effect(2), of e cb s]
  by (simp add: subscribe_effect distinct_update)

lemma assign_False_closed:
  assumes "registers s' = assign key False rs" and "areRegistersReady s'"
  shows "registers s' = rs"
proof (cases "key = ''__proto__''")
  case True
  then show ?thesis using assms(1) by (simp add: assign_def)
next
  case False
  then have "registers s' = AList.update key False rs" using assms(1) by (simp add: assign_def)
  then have "\<not> areRegistersReady s'" by (rule update_False_closed)
  then show ?thesis using assms(2) by simp
qed

lemma wf_register: "wf s \<Longrightarrow> wf (snd (register key s))"
proof -
  assume w: "wf s"
  define s' where "s' = snd (register key s)"
  have f: "subscribers s' = subscribers s" "waitForReadyQueue s' = waitForReadyQueue s"
    unfolding s'_def by (simp_all add: register_effect)
  have r: "registers s' = registers s \<or> registers s' = assign key False (registers s)"
    unfolding s'_def by (simp add: register_effect)
  have d: "distinct (map fst (registers s'))"
    using r w distinct_assign [of "registers s" key False] by (auto simp: wf_def)
  have o: "areRegistersReady s' \<Longrightarrow> registers s' = registers s"
    using r assign_False_closed [of s' key "registers s"] by blast
  have "areRegistersReady s' \<Longrightarrow> waitForReadyQueue s' = []"
    using o areRegistersReady_cong [of s' s] w f by (auto simp: wf_def)
  then show ?thesis
    using w d f subscribers_of_cong [OF f(1)] unfolding s'_def [symmetric] wf_def by auto
qed

lemma exec_plain:
  assumes "plain_bus s" and "plain_op c"
  shows "\<exists>r s'. exec c s = Some (r, s') \<and> plain_bus s' \<and> (wf s \<longrightarrow> wf s')"
proof (cases c)
  case (Subscribe e cb)
  have "exec c s = Some (fst (subscribe e cb s), snd (subscribe e cb s))"
    by (simp add: Subscribe perform_Subscribe)
  moreover have "plain_bus (snd (subscribe e cb s))"
    using assms Subscribe by (simp add: plain_subscribe)
  ultimately show ?thesis using wf_subscribe by blast
next
  case (Publish e p)
  obtain s' where r: "publish e p s = Some (Normal, s')"
    and f: "registers s' = registers s" "subscribers s' = subscribers s"
      "waitForReadyQueue s' =
       (if areRegistersReady s then waitForReadyQueue s
        else AList.update e p (waitForReadyQueue s))"
    using publish_plain [OF assms(1), of e p] by blast
  have p: "plain_bus s'" using assms(1) f by (simp add: plain_bus_def)
  have "wf s \<Longrightarrow> wf s'"
    unfolding wf_def
    using f areRegistersReady_cong [OF f(1)] subscribers_of_cong [OF f(2)]
    by (simp add: distinct_update)
  then show ?thesis using r p Publish by blast
next
  case (Register key)
  have "exec c s = Some (fst (register key s), snd (register key s))"
    by (simp add: Register perform_Register)
  moreover have "plain_bus (snd (register key s))"
    using assms(1) by (simp add: plain_bus_def register_effect)
  ultimately show ?thesis using wf_register by blast
next
  case (Ready key)
  obtain s' where r: "ready key s = Some (Normal, s')"
    and f: "registers s' = assign key True (registers s)" "subscribers s' = subscribers s"
     "areRegistersReady s' = areRegistersReady (mark_ready key s)"
     "waitForReadyQueue s' =
       (if areRegistersReady (mark_ready key s) then [] else waitForReadyQueue s)"
    using ready_plain [OF assms(1), of key] by blast
  have p: "plain_bus s'" using assms(1) f by (simp add: plain_bus_def)
  have "wf s \<Longrightarrow> wf s'"
    unfolding wf_def
    using f subscribers_of_cong [OF f(2)]
    by (simp add: distinct_assign)
  then show ?thesis using r p Ready by blast
qed

lemma run_plain:
  "plain_bus s \<Longrightarrow> list_all plain_op cs \<Longrightarrow> wf s \<Longrightarrow>
     \<exists>s'. run cs s = Some s' \<and> plain_bus s' \<and> wf s'"
proof (induction cs arbitrary: s)
  case Nil
  then show ?case by simp
next
  case (Cons c cs)
  obtain r s1 where e: "exec c s = Some (r, s1)" and p1: "plain_bus s1" and w1: "wf s1"
    using exec_plain [of s c] Cons.prems by auto
  have "list_all plain_op cs" using Cons.prems by simp
  then obtain s' where "run cs s1 = Some s'" "plain_bus s'" "wf s'"
    using Cons.IH [OF p1 _ w1] by blast
  then show ?case using e by simp
qed

lemma run_plain_init:
  "list_all plain_op cs \<Longrightarrow> \<exists>s. run cs init = Some s \<and> plain_bus s \<and> wf s"
  using run_plain [OF plain_init _ wf_init] .

lemma run_snoc:
  "run (cs @ [c]) s = Option.bind (run cs s) (\<lambda>s'. map_option snd (exec c s'))"
  by (induction cs arbitrary: s) (auto split: option.splits)

section \<open>Callbacks of any kind\<close>

lemma subscribe_keys:
  "map fst (subscribers_of e' (snd (subscribe e cb s))) =
     (if e' = e \<and> toString cb \<notin> set (map fst (subscribers_of e s))
      then map fst (subscribers_of e s) @ [toString cb]
      else map fst (subscribers_of e' s))"
  by (simp add: subscribe_effect(5) update_keys)

lemma evolves_refl: "evolves s s"
  by (simp add: evolves_def)

lemma evolves_trans: "evolves s s' \<Longrightarrow> evolves s' s'' \<Longrightarrow> evolves s s''"
  unfolding evolves_def by (meson subset_trans)

lemma evolves_same:
  "registers s' = registers s \<Longrightarrow> subscribers s' = subscribers s \<Longrightarrow>
   distinct (map fst (waitForReadyQueue s)) \<longrightarrow> distinct (map fst (waitForReadyQueue s')) \<Longrightarrow>
   evolves s s'"
  by (simp add: evolves_def keys_distinct_def subscribers_of_def)

lemma evolves_subscribe: "evolves s (snd (subscribe e cb s))"
proof -
  have k: "\<forall>event. set (map fst (subscribers_of event s))
      \<subseteq> set (map fst (subscribers_of event (snd (subscribe e cb s))))"
    unfolding subscribe_keys by (simp only: set_append split: if_splits) blast
  have "keys_distinct s \<Longrightarrow> keys_distinct (snd (subscribe e cb s))"
    by (simp add: keys_distinct_def subscribe_effect distinct_update)
  then show ?thesis using k by (simp add: evolves_def subscribe_effect(2))
qed

lemma evolves_assign:
  assumes "registers s' = assign key v (registers s)" and "subscribers s' = subscribers s"
    and "waitForReadyQueue s' = waitForReadyQueue s"
    and "v \<or> map_of (registers s) key = None"
  shows "evolves s s'"
proof -
  have "map_of (registers s') k = Some True" if "map_of (registers s) k = Some True" for k
    using that assms(1,4) by (auto simp: assign_def update_conv')
  then show ?thesis
    using assms(1,2,3) distinct_assign [of "registers s" key v]
    by (simp add: evolves_def keys_distinct_def subscribers_of_def)
qed

lemma evolves_register: "evolves s (snd (register key s))"
proof (cases "map_of (registers s) ''hasOwnProperty'' = None \<and> map_of (registers s) key = None")
  case True
  then have "registers (snd (register key s)) = assign key False (registers s)"
    by (simp add: register_effect(4))
  then show ?thesis using True by (intro evolves_assign) (auto simp: register_effect)
next
  case False
  then have "snd (register key s) = s" by (auto simp: register_def)
  then show ?thesis by (simp add: evolves_refl)
qed

lemma evolves_catch: "evolves s (snd (catch_handler error subscriber s))"
  by (cases error) (simp_all add: catch_handler_def evolves_same)

lemma bind_result:
  assumes "Option.bind m (\<lambda>r. case r of (Normal, s') \<Rightarrow> f s'
                                   | (Abrupt e, s') \<Rightarrow> Some (Abrupt e, s')) = Some r"
  shows "\<exists>c s1. m = Some (c, s1) \<and>
           (case c of Normal \<Rightarrow> f s1 | Abrupt e \<Rightarrow> Some (Abrupt e, s1)) = Some r"
proof (cases m)
  case None
  then show ?thesis using assms by simp
next
  case (Some x)
  obtain c s1 where x: "x = (c, s1)" by (cases x)
  show ?thesis using assms Some x by (cases c) auto
qed

lemma perform_evolves: "perform t s = Some r \<Longrightarrow> evolves s (snd r)"
proof (induction rule: perform.raw_induct [rotated 1, consumes 1, case_names step])
  case (step perform' t s r)
  note IH = step(1) and eq = step(2)
  show ?case
  proof (cases t)
    case (Call c)
    show ?thesis
    proof (cases c)
      case (Subscribe e cb)
      then show ?thesis using eq Call evolves_subscribe [of s e cb] by auto
    next
      case (Publish e p)
      show ?thesis
      proof (cases "areRegistersReady s")
        case True
        then show ?thesis using eq Call Publish IH by auto
      next
        case False
        then have "r = (Normal, s\<lparr>waitForReadyQueue := AList.update e p (waitForReadyQueue s)\<rparr>)"
          using eq Call Publish by simp
        then show ?thesis by (simp add: evolves_same distinct_update)
      qed
    next
      case (Register key)
      then show ?thesis using eq Call evolves_register [of s key] by auto
    next
      case (Ready key)
      define s1 where "s1 = mark_ready key s"
      have e1: "evolves s s1"
        unfolding s1_def by (rule evolves_assign [of _ key True]) (auto simp: mark_ready_def)
      show ?thesis
      proof (cases "areRegistersReady s1 \<and> 0 < length (waitForReadyQueue s1)")
        case True
        then have "Option.bind (perform' (QueueForEach 0) s1)
            (\<lambda>r. case r of (Normal, s2) \<Rightarrow> Some (Normal, clear s2)
                          | (Abrupt e, s2) \<Rightarrow> Some (Abrupt e, s2)) = Some r"
          using eq Call Ready by (simp add: s1_def [symmetric] Let_def)
        from bind_result [OF this] obtain c s2 where q: "perform' (QueueForEach 0) s1 = Some (c, s2)"
          and r: "(case c of Normal \<Rightarrow> Some (Normal, clear s2)
                   | Abrupt e \<Rightarrow> Some (Abrupt e, s2)) = Some r"
          by blast
        have e2: "evolves s1 s2" using IH [OF q] by simp
        have "evolves s2 (clear s2)" by (simp add: clear_def evolves_same)
        then have "evolves s2 (snd r)" using r by (cases c) (auto simp: evolves_refl)
        then show ?thesis using e1 e2 evolves_trans by blast
      next
        case False
        then have "r = (Normal, s1)" using eq Call Ready
          by (auto simp: s1_def [symmetric] Let_def)
        then show ?thesis using e1 by simp
      qed
    qed
  next
    case (PublishEvent e p)
    then show ?thesis using eq IH by auto
  next
    case (SubscribersForEach e p i)
    show ?thesis
    proof (cases "i < length (subscribers_of e s)")
      case True
      then have "Option.bind (perform' (Body e p (fst (subscribers_of e s ! i))
          (snd (subscribers_of e s ! i))) s)
          (\<lambda>r. case r of (Normal, s') \<Rightarrow> perform' (SubscribersForEach e p (i + 1)) s'
                        | (Abrupt e, s') \<Rightarrow> Some (Abrupt e, s')) = Some r"
        using eq SubscribersForEach by simp
      from bind_result [OF this] obtain c s1 where b: "perform' (Body e p (fst (subscribers_of e s ! i))
          (snd (subscribers_of e s ! i))) s = Some (c, s1)"
        and r: "(case c of Normal \<Rightarrow> perform' (SubscribersForEach e p (i + 1)) s1
                 | Abrupt x \<Rightarrow> Some (Abrupt x, s1)) = Some r"
        by blast
      have e1: "evolves s s1" using IH [OF b] by simp
      have "evolves s1 (snd r)"
        using r IH by (cases c) (auto simp: evolves_refl)
      then show ?thesis using e1 evolves_trans by blast
    next
      case False
      then show ?thesis using eq SubscribersForEach by (auto simp: evolves_refl)
    qed
  next
    case (Body e p subscriber callback)
    define s0 where "s0 = s\<lparr>invoked := invoked s @ [(e, subscriber, p)]\<rparr>"
    have e0: "evolves s s0" by (simp add: s0_def evolves_same)
    obtain x where st': "perform' (Statements (fst (call callback (invoked s) p))) s0 = Some x"
      and r': "(case x of
               (Abrupt error, s') \<Rightarrow> Some (catch_handler error subscriber s')
             | (Normal, s') \<Rightarrow>
                 (case snd (call callback (invoked s) p) of
                    None \<Rightarrow> Some (Normal, s')
                  | Some error \<Rightarrow> Some (catch_handler error subscriber s'))) = Some r"
      using eq Body by (auto simp: s0_def [symmetric] bind_eq_Some_conv)
    obtain c s1 where x: "x = (c, s1)" by (cases x)
    have st: "perform' (Statements (fst (call callback (invoked s) p))) s0 = Some (c, s1)"
      using st' x by simp
    have r: "r = (case c of
                 Abrupt error \<Rightarrow> catch_handler error subscriber s1
               | Normal \<Rightarrow> (case snd (call callback (invoked s) p) of
                    None \<Rightarrow> (Normal, s1)
                  | Some error \<Rightarrow> catch_handler error subscriber s1))"
      using r' x by (auto split: completion.splits option.splits)
    have e1: "evolves s0 s1" using IH [OF st] by simp
    have "evolves s1 (snd r)"
      unfolding r using evolves_catch [of s1]
      by (auto simp: evolves_refl split: completion.splits option.splits)
    then show ?thesis using e0 e1 evolves_trans by blast
  next
    case (Statements cs)
    show ?thesis
    proof (cases cs)
      case Nil
      then show ?thesis using eq Statements by (auto simp: evolves_refl)
    next
      case (Cons c cs')
      then have "Option.bind (perform' (Call c) s)
          (\<lambda>r. case r of (Normal, s') \<Rightarrow> perform' (Statements cs') s'
                        | (Abrupt e, s') \<Rightarrow> Some (Abrupt e, s')) = Some r"
        using eq Statements by simp
      from bind_result [OF this] obtain x s1 where b: "perform' (Call c) s = Some (x, s1)"
        and r: "(case x of Normal \<Rightarrow> perform' (Statements cs') s1
                 | Abrupt e \<Rightarrow> Some (Abrupt e, s1)) = Some r"
        by blast
      have e1: "evolves s s1" using IH [OF b] by simp
      have "evolves s1 (snd r)"
        using r IH by (cases x) (auto simp: evolves_refl)
      then show ?thesis using e1 evolves_trans by blast
    qed
  next
    case (QueueForEach i)
    define j where "j = max i (emptied s) - emptied s"
    show ?thesis
    proof (cases "j < length (waitForReadyQueue s)")
      case True
      then have "Option.bind (perform' (PublishEvent (fst (waitForReadyQueue s ! j))
          (snd (waitForReadyQueue s ! j))) s)
          (\<lambda>r. case r of (Normal, s') \<Rightarrow> perform' (QueueForEach (max i (emptied s) + 1)) s'
                        | (Abrupt e, s') \<Rightarrow> Some (Abrupt e, s')) = Some r"
        using eq QueueForEach by (simp add: j_def [symmetric] Let_def)
      from bind_result [OF this] obtain c s1 where b: "perform' (PublishEvent (fst (waitForReadyQueue s ! j))
          (snd (waitForReadyQueue s ! j))) s = Some (c, s1)"
        and r: "(case c of Normal \<Rightarrow> perform' (QueueForEach (max i (emptied s) + 1)) s1
                 | Abrupt x \<Rightarrow> Some (Abrupt x, s1)) = Some r"
        by blast
      have e1: "evolves s s1" using IH [OF b] by simp
      have "evolves s1 (snd r)"
        using r IH by (cases c) (auto simp: evolves_refl)
      then show ?thesis using e1 evolves_trans by blast
    next
      case False
      then show ?thesis using eq QueueForEach
        by (auto simp: j_def [symmetric] Let_def evolves_refl)
    qed
  qed
qed

lemma run_evolves: "run cs s = Some s' \<Longrightarrow> evolves s s'"
proof (induction cs arbitrary: s)
  case Nil
  then show ?case by (simp add: evolves_refl)
next
  case (Cons c cs)
  then obtain r s1 where e: "exec c s = Some (r, s1)" and r: "run cs s1 = Some s'"
    by (cases "exec c s") auto
  have "evolves s s1" using perform_evolves [OF e] by simp
  then show ?case using Cons.IH [OF r] by (rule evolves_trans)
qed

lemma keys_distinct_init: "keys_distinct init"
  by (simp add: keys_distinct_def init_def subscribers_of_def)

lemma keys_distinct_run: "run cs init = Some s \<Longrightarrow> keys_distinct s"
  using run_evolves [of cs init s] keys_distinct_init unfolding evolves_def by blast

lemma keys_distinct_subscribe: "keys_distinct s \<Longrightarrow> keys_distinct (snd (subscribe e cb s))"
  using evolves_subscribe [of s e cb] unfolding evolves_def by blast

lemma flag_kept_run:
  "run cs s = Some s' \<Longrightarrow> map_of (registers s) key = Some True \<Longrightarrow>
     map_of (registers s') key = Some True"
  using run_evolves [of cs s s'] unfolding evolves_def by blast

section \<open>The readiness gate\<close>

lemma ordinary_ops_names:
  "list_all ordinary_op cs \<Longrightarrow>
     Register ''hasOwnProperty'' \<notin> set cs \<and> Ready ''hasOwnProperty'' \<notin> set cs \<and>
     Register ''__proto__'' \<notin> set cs \<and> Ready ''__proto__'' \<notin> set cs"
  by (induction cs) (auto simp: ordinary_def)

lemma regs_exec:
  assumes "plain_bus s" and "map_of (registers s) ''hasOwnProperty'' = None"
    and "ordinary_op c"
  shows "\<exists>r s'. exec c s = Some (r, s') \<and>
     (\<forall>k. map_of (registers s') k =
       (case c of
          Ready k' \<Rightarrow> if k' = k then Some True else map_of (registers s) k
        | Register k' \<Rightarrow> if k' = k \<and> map_of (registers s) k = None then Some False
                         else map_of (registers s) k
        | _ \<Rightarrow> map_of (registers s) k))"
proof (cases c)
  case (Subscribe e cb)
  have "registers (snd (subscribe e cb s)) = registers s" by (rule subscribe_effect(2))
  then show ?thesis using Subscribe
    by (cases "subscribe e cb s") (simp add: perform_Subscribe)
next
  case (Publish e p)
  then show ?thesis using publish_plain [OF assms(1), of e p] by auto
next
  case (Register key)
  then have "key \<noteq> ''__proto__''" using assms(3) by (simp add: ordinary_def)
  then have "\<forall>k. map_of (registers (snd (register key s))) k =
      (if key = k \<and> map_of (registers s) k = None then Some False else map_of (registers s) k)"
    using assms(2) by (auto simp: register_effect(4) assign_def update_conv')
  then show ?thesis using Register
    by (cases "register key s") (simp add: perform_Register)
next
  case (Ready key)
  then have "key \<noteq> ''__proto__''" using assms(3) by (simp add: ordinary_def)
  then show ?thesis using Ready ready_plain [OF assms(1), of key]
    by (auto simp: assign_def update_conv')
qed

lemma regs_run:
  assumes "list_all plain_op cs" and "list_all ordinary_op cs"
  shows "\<exists>s. run cs init = Some s \<and>
     (\<forall>k. map_of (registers s) k =
        (if Ready k \<in> set cs then Some True
         else if Register k \<in> set cs then Some False else None))"
  using assms
proof (induction cs rule: rev_induct)
  case Nil
  show ?case by (simp add: init_def)
next
  case (snoc c cs)
  have pc: "list_all plain_op cs" and oc: "list_all ordinary_op cs" and o: "ordinary_op c"
    using snoc.prems by simp_all
  obtain s where r: "run cs init = Some s"
    and m: "\<forall>k. map_of (registers s) k =
        (if Ready k \<in> set cs then Some True
         else if Register k \<in> set cs then Some False else None)"
    using snoc.IH [OF pc oc] by blast
  obtain s0 where "run cs init = Some s0" "plain_bus s0" using run_plain_init [OF pc] by blast
  then have p: "plain_bus s" using r by simp
  have h: "map_of (registers s) ''hasOwnProperty'' = None"
    using m ordinary_ops_names [OF oc] by simp
  obtain x s' where e: "exec c s = Some (x, s')"
    and m': "\<forall>k. map_of (registers s') k =
       (case c of
          Ready k' \<Rightarrow> if k' = k then Some True else map_of (registers s) k
        | Register k' \<Rightarrow> if k' = k \<and> map_of (registers s) k = None then Some False
                         else map_of (registers s) k
        | _ \<Rightarrow> map_of (registers s) k)"
    using regs_exec [OF p h o] by blast
  have "run (cs @ [c]) init = Some s'" using r e by (simp add: run_snoc)
  moreover have "\<forall>k. map_of (registers s') k =
        (if Ready k \<in> set (cs @ [c]) then Some True
         else if Register k \<in> set (cs @ [c]) then Some False else None)"
    using m m' by (cases c) auto
  ultimately show ?case by blast
qed






lemma mark_ready_same:
  "map_of (registers s) key = Some True \<Longrightarrow> mark_ready key s = s"
  by (simp add: mark_ready_def assign_def update_triv)

lemma ready_again:
  assumes "wf s" and "map_of (registers s) key = Some True"
  shows "ready key s = Some (Normal, s)"
proof -
  have m: "mark_ready key s = s" using assms(2) by (rule mark_ready_same)
  have "\<not> (areRegistersReady s \<and> 0 < length (waitForReadyQueue s))"
    using assms(1) by (auto simp: wf_def)
  then show ?thesis by (auto simp: perform_Ready m)
qed

lemma flag_stays_exec:
  assumes "plain_bus s" and "map_of (registers s) key = Some True" and "exec c s = Some (r, s')"
  shows "map_of (registers s') key = Some True"
proof (cases c)
  case (Subscribe e cb)
  have "registers (snd (subscribe e cb s)) = registers s" by (rule subscribe_effect(2))
  then show ?thesis using Subscribe assms by (auto simp: perform_Subscribe)
next
  case (Publish e p)
  then show ?thesis using assms publish_plain [OF assms(1), of e p] by auto
next
  case (Register k)
  then have "registers s' = registers (snd (register k s))"
    using assms(3) by (auto simp: perform_Register)
  then show ?thesis using assms(2)
    by (auto simp: register_effect(4) assign_def update_conv')
next
  case (Ready k)
  then show ?thesis using assms ready_plain [OF assms(1), of k]
    by (auto simp: assign_def update_conv')
qed

lemma flag_stays_run:
  "plain_bus s \<Longrightarrow> wf s \<Longrightarrow> list_all plain_op ds \<Longrightarrow> map_of (registers s) key = Some True \<Longrightarrow>
     \<exists>s'. run ds s = Some s' \<and> plain_bus s' \<and> wf s' \<and> map_of (registers s') key = Some True"
proof (induction ds arbitrary: s)
  case Nil
  then show ?case by simp
next
  case (Cons c ds)
  obtain r s1 where e: "exec c s = Some (r, s1)" and p1: "plain_bus s1" and w1: "wf s1"
    using exec_plain [of s c] Cons.prems by auto
  have f1: "map_of (registers s1) key = Some True"
    using flag_stays_exec [OF Cons.prems(1) Cons.prems(4) e] .
  have "list_all plain_op ds" using Cons.prems by simp
  then show ?case using Cons.IH [OF p1 w1 _ f1] e by simp
qed

lemma register_twice:
  assumes "map_of (registers s) ''hasOwnProperty'' = None" and "ordinary key"
  shows "\<exists>s1. register key s = (Normal, s1) \<and> register key s1 = (Normal, s1)"
proof (cases "map_of (registers s) key")
  case None
  have k: "key \<noteq> ''__proto__''" "key \<noteq> ''hasOwnProperty''"
    using assms(2) by (simp_all add: ordinary_def)
  then show ?thesis using assms(1) None
    by (simp add: register_def assign_def update_conv')
next
  case (Some b)
  then show ?thesis using assms(1) by (simp add: register_def)
qed

text \<open>
  Claim C9 as stated fails. A second \<open>register("hasOwnProperty")\<close> throws; after
  \<open>register("__proto__")\<close> and its \<open>ready\<close> the object holds no flag at all; and when a
  callback throws an error that the handler cannot read, the flush is left before
  \<open>clear()\<close>, so a second \<open>ready\<close> for the same name flushes again.
\<close>

theorem register_ready_idempotent_counterexample:
  "map_option (fst \<circ> register ''hasOwnProperty'')
     (run [Register ''hasOwnProperty''] (init :: nat bus)) = Some (Abrupt not_a_function) \<and>
   map_option registers (run [Register ''__proto__'', Ready ''__proto__''] (init :: nat bus))
     = Some [] \<and>
   map_option invoked
     (run [Subscribe ''k'' trapped, Register ''x'', Publish ''k'' 1, Ready ''x''] init)
     = Some [(''k'', toString trapped, 1)] \<and>
   map_option invoked
     (run [Subscribe ''k'' trapped, Register ''x'', Publish ''k'' 1, Ready ''x'', Ready ''x''] init)
     = Some [(''k'', toString trapped, 1), (''k'', toString trapped, 1)]"
  by (simp add: ev)

text \<open>
  Claim C9, amended. After calls with ordinary names and plain callbacks, and for an
  ordinary name: \<open>register\<close> is idempotent and leaves the state as it is when the name is
  already registered; \<open>ready\<close> returns with the flag of the name \<open>true\<close>; a second \<open>ready\<close>
  for the name, at once or after any further calls with plain callbacks, changes nothing;
  and the flag is still \<open>true\<close> after any further calls whatever, with callbacks of any
  kind.
\<close>

theorem register_ready_idempotent_monotone:
  assumes "list_all plain_op cs" and "list_all ordinary_op cs" and "ordinary key"
    and "list_all plain_op ds"
  shows "\<exists>s. run cs init = Some s \<and>
     (\<exists>s1. register key s = (Normal, s1) \<and> register key s1 = (Normal, s1)) \<and>
     (\<forall>b. map_of (registers s) key = Some b \<longrightarrow> register key s = (Normal, s)) \<and>
     (\<exists>s2. ready key s = Some (Normal, s2) \<and> map_of (registers s2) key = Some True \<and>
        ready key s2 = Some (Normal, s2) \<and>
        (\<exists>s3. run ds s2 = Some s3 \<and> map_of (registers s3) key = Some True \<and>
           ready key s3 = Some (Normal, s3)) \<and>
        (\<forall>es s4. run es s2 = Some s4 \<longrightarrow> map_of (registers s4) key = Some True))"
proof -
  obtain s where r: "run cs init = Some s"
    and m: "\<forall>k. map_of (registers s) k =
        (if Ready k \<in> set cs then Some True
         else if Register k \<in> set cs then Some False else None)"
    using regs_run [OF assms(1,2)] by blast
  obtain s0 where "run cs init = Some s0" "plain_bus s0" "wf s0"
    using run_plain_init [OF assms(1)] by blast
  then have p: "plain_bus s" and w: "wf s" using r by simp_all
  have h: "map_of (registers s) ''hasOwnProperty'' = None"
    using m ordinary_ops_names [OF assms(2)] by simp
  note a = register_twice [OF h assms(3)]
  have b: "\<forall>b. map_of (registers s) key = Some b \<longrightarrow> register key s = (Normal, s)"
    using h by (simp add: register_def)
  have k: "key \<noteq> ''__proto__''" using assms(3) by (simp add: ordinary_def)
  obtain s2 where r2: "ready key s = Some (Normal, s2)"
    and f2: "registers s2 = assign key True (registers s)"
    using ready_plain [OF p, of key] by blast
  have t2: "map_of (registers s2) key = Some True"
    using f2 k by (simp add: assign_def update_conv')
  obtain x s2' where "exec (Ready key) s = Some (x, s2')" "plain_bus s2'" "wf s2'"
    using exec_plain [OF p, of "Ready key"] w by auto
  then have p2: "plain_bus s2" and w2: "wf s2" using r2 by simp_all
  have again: "ready key s2 = Some (Normal, s2)" using w2 t2 by (rule ready_again)
  obtain s3 where r3: "run ds s2 = Some s3" and w3: "wf s3"
    and t3: "map_of (registers s3) key = Some True"
    using flag_stays_run [OF p2 w2 assms(4) t2] by blast
  have later: "ready key s3 = Some (Normal, s3)" using w3 t3 by (rule ready_again)
  have ever: "\<forall>es s4. run es s2 = Some s4 \<longrightarrow> map_of (registers s4) key = Some True"
    using flag_kept_run [OF _ t2] by blast
  show ?thesis using r a b r2 t2 again r3 t3 later ever by blast
qed

theorem register_ready_idempotent_monotone_witness:
  "\<exists>s. run [Subscribe ''page_viewed'' thrower, Register ''pixelA'', Publish ''page_viewed'' 1]
          init = Some s \<and>
     (\<exists>s1. register ''pixelA'' s = (Normal, s1) \<and> register ''pixelA'' s1 = (Normal, s1)) \<and>
     (\<forall>b. map_of (registers s) ''pixelA'' = Some b \<longrightarrow> register ''pixelA'' s = (Normal, s)) \<and>
     (\<exists>s2. ready ''pixelA'' s = Some (Normal, s2) \<and>
        map_of (registers s2) ''pixelA'' = Some True \<and>
        ready ''pixelA'' s2 = Some (Normal, s2) \<and>
        (\<exists>s3. run [Register ''pixelB'', Publish ''page_viewed'' 2, Ready ''pixelB''] s2 = Some s3 \<and>
           map_of (registers s3) ''pixelA'' = Some True \<and>
           ready ''pixelA'' s3 = Some (Normal, s3)) \<and>
        (\<forall>es s4. run es s2 = Some s4 \<longrightarrow> map_of (registers s4) ''pixelA'' = Some True))"
proof -
  have h1: "list_all plain_op
      [Subscribe ''page_viewed'' thrower, Register ''pixelA'', Publish ''page_viewed'' 1]"
    by (simp add: pl)
  have h2: "list_all ordinary_op
      [Subscribe ''page_viewed'' thrower, Register ''pixelA'', Publish ''page_viewed'' 1]"
    by (simp add: ordinary_def)
  have h3: "ordinary ''pixelA''" by (simp add: ordinary_def)
  have h4: "list_all plain_op
      [Register ''pixelB'', Publish ''page_viewed'' 2, Ready ''pixelB'' :: nat op]"
    by simp
  show ?thesis by (rule register_ready_idempotent_monotone [OF h1 h2 h3 h4])
qed


lemma subscribe_pair: "subscribe e cb s = (Normal, snd (subscribe e cb s))"
  using subscribe_effect(1) [of e cb s] by (cases "subscribe e cb s") simp







section \<open>The dispatcher\<close>




section \<open>Immediate delivery\<close>





text \<open>
  Claim C10 as stated fails. A callback throws an error that the handler cannot read
  during the flush; \<open>ready\<close> is left before \<open>clear()\<close>, so the gate is open with a pending
  payload, and every further \<open>ready\<close> call delivers that payload again. And a callback
  that calls \<open>ready\<close> during the flush starts a second flush before \<open>clear()\<close>, so the
  pending payload is delivered twice to the other subscriber.
\<close>

theorem open_gate_queue_empty_counterexample:
  "map_option areRegistersReady
     (run [Subscribe ''k'' trapped, Register ''x'', Publish ''k'' 1, Ready ''x''] init)
     = Some True \<and>
   map_option waitForReadyQueue
     (run [Subscribe ''k'' trapped, Register ''x'', Publish ''k'' 1, Ready ''x''] init)
     = Some [(''k'', 1)] \<and>
   map_option invoked
     (run [Subscribe ''k'' trapped, Register ''x'', Publish ''k'' 1, Ready ''x'', Ready ''x'',
           Ready ''x''] init)
     = Some [(''k'', toString trapped, 1), (''k'', toString trapped, 1),
             (''k'', toString trapped, 1)] \<and>
   map_option invoked
     (run [Subscribe ''k'' listener, Subscribe ''k'' reenter, Register ''x'', Publish ''k'' 1,
           Ready ''x''] init)
     = Some [(''k'', toString listener, 1), (''k'', toString reenter, 1),
             (''k'', toString listener, 1), (''k'', toString reenter, 1)]"
  by (simp add: ev)

text \<open>
  Claim C10, amended. After every sequence of calls with plain callbacks from the empty
  bus, an open gate means an empty queue; a further \<open>ready\<close> call then returns, calls no
  subscriber and leaves the queue empty.
\<close>

theorem open_gate_queue_empty:
  "list_all plain_op cs \<longrightarrow>
     (\<exists>s. run cs init = Some s \<and>
        (areRegistersReady s \<longrightarrow>
           waitForReadyQueue s = [] \<and>
           (\<exists>s'. ready key s = Some (Normal, s') \<and> new_calls s s' = [] \<and>
              waitForReadyQueue s' = [])))"
proof
  assume a: "list_all plain_op cs"
  obtain s where r: "run cs init = Some s" and p: "plain_bus s" and w: "wf s"
    using run_plain_init [OF a] by blast
  have "waitForReadyQueue s = [] \<and>
           (\<exists>s'. ready key s = Some (Normal, s') \<and> new_calls s s' = [] \<and>
              waitForReadyQueue s' = [])" if o: "areRegistersReady s"
  proof -
    have q: "waitForReadyQueue s = []" using w o by (simp add: wf_def)
    obtain s' where e: "ready key s = Some (Normal, s')"
      and f: "waitForReadyQueue s' =
         (if areRegistersReady (mark_ready key s) then [] else waitForReadyQueue s)"
       "invoked s' =
         (if areRegistersReady (mark_ready key s)
          then invoked s @ flush_deliveries (waitForReadyQueue s) s else invoked s)"
      using ready_plain [OF p, of key] by blast
    have "new_calls s s' = []" using f q by (simp add: new_calls_def flush_deliveries_def)
    moreover have "waitForReadyQueue s' = []" using f q by simp
    ultimately show ?thesis using q e by blast
  qed
  then show "\<exists>s. run cs init = Some s \<and>
        (areRegistersReady s \<longrightarrow>
           waitForReadyQueue s = [] \<and>
           (\<exists>s'. ready key s = Some (Normal, s') \<and> new_calls s s' = [] \<and>
              waitForReadyQueue s' = []))"
    using r by blast
qed

theorem open_gate_queue_empty_witness:
  "list_all plain_op [Subscribe ''page_viewed'' listener, Register ''x'',
      Publish ''page_viewed'' 1, Ready ''x''] \<and>
   (\<exists>s. run [Subscribe ''page_viewed'' listener, Register ''x'',
      Publish ''page_viewed'' 1, Ready ''x''] init = Some s \<and>
      areRegistersReady s \<and> waitForReadyQueue s = [] \<and>
      (\<exists>s'. ready ''x'' s = Some (Normal, s') \<and> new_calls s s' = [] \<and>
         waitForReadyQueue s' = []))"
proof -
  have h: "list_all plain_op [Subscribe ''page_viewed'' listener, Register ''x'',
      Publish ''page_viewed'' 1, Ready ''x'']"
    by (simp add: pl)
  have o: "areRegistersReady (the (run [Subscribe ''page_viewed'' listener, Register ''x'',
      Publish ''page_viewed'' 1, Ready ''x''] init))"
    by (simp add: ev)
  show ?thesis
    using open_gate_queue_empty
      [of "[Subscribe ''page_viewed'' listener, Register ''x'',
            Publish ''page_viewed'' 1, Ready ''x'']" "''x''"] h o
    by auto
qed

section \<open>The subscription registry\<close>

lemma subscriber_kept_exec:
  assumes "plain_bus s" and "exec c s = Some (r, s')"
    and "k \<in> set (map fst (subscribers_of e s))"
  shows "k \<in> set (map fst (subscribers_of e s'))"
proof (cases c)
  case (Subscribe e' cb)
  then have s': "s' = snd (subscribe e' cb s)" using assms(2) by (auto simp: perform_Subscribe)
  have "set (map fst (subscribers_of e s)) \<subseteq> set (map fst (subscribers_of e s'))"
    unfolding s' subscribe_keys by (simp only: set_append split: if_splits) blast
  then show ?thesis using assms(3) by blast
next
  case (Publish e' p)
  obtain s'' where "publish e' p s = Some (Normal, s'')" "subscribers s'' = subscribers s"
    using publish_plain [OF assms(1), of e' p] by blast
  then have "subscribers s' = subscribers s" using assms(2) Publish by simp
  then show ?thesis using assms(3) subscribers_of_cong [of s' s e] by simp
next
  case (Register key)
  then have "s' = snd (register key s)" using assms(2) by (auto simp: perform_Register)
  then have "subscribers s' = subscribers s" by (simp add: register_effect)
  then show ?thesis using assms(3) subscribers_of_cong [of s' s e] by simp
next
  case (Ready key)
  obtain s'' where "ready key s = Some (Normal, s'')" "subscribers s'' = subscribers s"
    using ready_plain [OF assms(1), of key] by blast
  then have "subscribers s' = subscribers s" using assms(2) Ready by simp
  then show ?thesis using assms(3) subscribers_of_cong [of s' s e] by simp
qed

lemma subscribed_after_subscribe:
  "toString cb \<in> set (map fst (subscribers_of e (snd (subscribe e cb s))))"
  unfolding subscribe_keys by auto

lemma subscribed_in_run:
  "plain_bus s \<Longrightarrow> list_all plain_op cs \<Longrightarrow> run cs s = Some s' \<Longrightarrow>
   (k \<in> set (map fst (subscribers_of e s)) \<or> (\<exists>cb. Subscribe e cb \<in> set cs \<and> toString cb = k)) \<Longrightarrow>
     k \<in> set (map fst (subscribers_of e s'))"
proof (induction cs arbitrary: s)
  case Nil
  then show ?case by simp
next
  case (Cons c cs)
  obtain r s1 where e: "exec c s = Some (r, s1)" and p1: "plain_bus s1"
    using exec_plain [of s c] Cons.prems by auto
  have r1: "run cs s1 = Some s'" using Cons.prems(3) e by simp
  have pc: "list_all plain_op cs" using Cons.prems(2) by simp
  have "k \<in> set (map fst (subscribers_of e s1)) \<or>
      (\<exists>cb. Subscribe e cb \<in> set cs \<and> toString cb = k)"
  proof (cases "k \<in> set (map fst (subscribers_of e s))")
    case True
    then show ?thesis using subscriber_kept_exec [OF Cons.prems(1) e] by blast
  next
    case False
    then obtain cb where cb: "Subscribe e cb \<in> set (c # cs)" "toString cb = k"
      using Cons.prems(4) by blast
    show ?thesis
    proof (cases "c = Subscribe e cb")
      case True
      then have "s1 = snd (subscribe e cb s)" using e by (auto simp: perform_Subscribe)
      then show ?thesis using subscribed_after_subscribe [of cb e s] cb(2) by simp
    next
      case False
      then show ?thesis using cb by auto
    qed
  qed
  then show ?case using Cons.IH [OF p1 pc r1] by blast
qed

lemma count_distinct_one: "distinct xs \<Longrightarrow> x \<in> set xs \<Longrightarrow> count_list xs x = 1"
  by (induction xs) auto

lemma count_calls:
  "count_list (map (\<lambda>entry. (e, fst entry, p)) xs) (e', k, p') =
     (if e = e' \<and> p = p' then count_list (map fst xs) k else 0)"
  by (induction xs) auto

lemma subscribe_same_state:
  "snd (subscribe e cb (snd (subscribe e cb s))) = snd (subscribe e cb s)"
  by (cases "map_of (subscribers s) e") (simp_all add: subscribe_def Let_def update_conv')

lemma single_slot:
  assumes "keys_distinct s0" and "toString cb' = toString cb"
  shows "\<exists>s1 s2.
     subscribe event cb s0 = (Normal, s1) \<and> subscribe event cb' s1 = (Normal, s2) \<and>
     map fst (subscribers_of event s2) = map fst (subscribers_of event s1) \<and>
     count_list (map fst (subscribers_of event s2)) (toString cb) = 1 \<and>
     subscribe event cb s1 = (Normal, s1) \<and>
     toString cb \<in> set (map fst (subscribers_of event s2))"
proof -
  define s1 where "s1 = snd (subscribe event cb s0)"
  define s2 where "s2 = snd (subscribe event cb' s1)"
  have e1: "subscribe event cb s0 = (Normal, s1)" unfolding s1_def by (rule subscribe_pair)
  have e2: "subscribe event cb' s1 = (Normal, s2)" unfolding s2_def by (rule subscribe_pair)
  have k1: "keys_distinct s1" unfolding s1_def using assms(1) by (rule keys_distinct_subscribe)
  have k2: "keys_distinct s2" unfolding s2_def using k1 by (rule keys_distinct_subscribe)
  have in1: "toString cb \<in> set (map fst (subscribers_of event s1))"
    unfolding s1_def by (rule subscribed_after_subscribe)
  have keys: "map fst (subscribers_of event s2) = map fst (subscribers_of event s1)"
    unfolding s2_def subscribe_keys using in1 assms(2) by simp
  have in2: "toString cb \<in> set (map fst (subscribers_of event s2))"
    using in1 keys by simp
  have d2: "distinct (map fst (subscribers_of event s2))" using k2 by (simp add: keys_distinct_def)
  have c2: "count_list (map fst (subscribers_of event s2)) (toString cb) = 1"
    using d2 in2 by (rule count_distinct_one)
  have "snd (subscribe event cb s1) = s1"
    unfolding s1_def by (rule subscribe_same_state)
  then have idem: "subscribe event cb s1 = (Normal, s1)"
    using subscribe_pair [of event cb s1] by simp
  show ?thesis using e1 e2 keys c2 idem in2 by blast
qed

lemma delivered_once:
  assumes "plain_bus s2" and "wf s2" and "list_all plain_op cs"
    and "k \<in> set (map fst (subscribers_of event s2))"
  shows "\<exists>s3 s4. run cs s2 = Some s3 \<and> publishEvent event payload s3 = Some (Normal, s4) \<and>
     count_list (new_calls s3 s4) (event, k, payload) = 1"
proof -
  obtain s3 where r3: "run cs s2 = Some s3" and p3: "plain_bus s3" and w3: "wf s3"
    using run_plain [OF assms(1,3,2)] by blast
  have in3: "k \<in> set (map fst (subscribers_of event s3))"
    using subscribed_in_run [OF assms(1,3) r3] assms(4) by blast
  have d3: "distinct (map fst (subscribers_of event s3))" using w3 by (simp add: wf_def)
  have c3: "count_list (map fst (subscribers_of event s3)) k = 1"
    using d3 in3 by (rule count_distinct_one)
  obtain s4 where e4: "publishEvent event payload s3 = Some (Normal, s4)"
    and i4: "invoked s4 = invoked s3 @ deliveries event payload s3"
    using publishEvent_plain [OF p3, of event payload] by blast
  have n: "new_calls s3 s4 =
      map (\<lambda>entry. (event, fst entry, payload)) (subscribers_of event s3)"
    using i4 by (simp add: new_calls_def deliveries_def)
  have c4: "count_list (new_calls s3 s4) (event, k, payload) = 1"
    unfolding n count_calls using c3 by simp
  show ?thesis using r3 e4 c4 by blast
qed

text \<open>
  Claim C7 as stated fails. The callback is subscribed twice and holds one slot, but an
  earlier subscriber of the kind throws an error that the handler cannot read, so a
  delivery of the kind calls the callback not once but never.
\<close>

theorem subscribe_same_text_single_slot_counterexample:
  "map fst (subscribers_of ''page_viewed''
     (the (run [Subscribe ''page_viewed'' trapped, Subscribe ''page_viewed'' listener,
                Subscribe ''page_viewed'' listener] init)))
     = [toString trapped, toString listener] \<and>
   map_option fst
     (publishEvent ''page_viewed'' 7
        (the (run [Subscribe ''page_viewed'' trapped, Subscribe ''page_viewed'' listener,
                   Subscribe ''page_viewed'' listener] init)))
     = Some (Abrupt (OtherValue ''getter'')) \<and>
   count_list
     (the (map_option (invoked \<circ> snd)
        (publishEvent ''page_viewed'' 7
           (the (run [Subscribe ''page_viewed'' trapped, Subscribe ''page_viewed'' listener,
                      Subscribe ''page_viewed'' listener] init)))))
     (''page_viewed'', toString listener, 7) = 0"
  by (simp add: ev)

text \<open>
  Claim C7, amended. In every state the bus reaches, whatever the callbacks: subscribing a
  callback with the same source text again under the same kind leaves the keys of the
  kind's \<open>Map\<close> as they were, with that identity once, and subscribing the very same
  callback again leaves the whole state unchanged. When moreover every subscribed callback
  is plain, any later delivery of the kind returns normally and calls it exactly once.
\<close>

theorem subscribe_same_text_single_slot:
  assumes "run pre init = Some s0" and "toString cb' = toString cb"
  shows "\<exists>s1 s2.
     subscribe event cb s0 = (Normal, s1) \<and> subscribe event cb' s1 = (Normal, s2) \<and>
     map fst (subscribers_of event s2) = map fst (subscribers_of event s1) \<and>
     count_list (map fst (subscribers_of event s2)) (toString cb) = 1 \<and>
     subscribe event cb s1 = (Normal, s1) \<and>
     (list_all plain_op pre \<and> plain cb \<and> plain cb' \<and> list_all plain_op cs \<longrightarrow>
        (\<exists>s3 s4. run cs s2 = Some s3 \<and>
           publishEvent event payload s3 = Some (Normal, s4) \<and>
           count_list (new_calls s3 s4) (event, toString cb, payload) = 1))"
proof -
  have k0: "keys_distinct s0" using assms(1) by (rule keys_distinct_run)
  obtain s1 s2 where e1: "subscribe event cb s0 = (Normal, s1)"
    and e2: "subscribe event cb' s1 = (Normal, s2)"
    and keys: "map fst (subscribers_of event s2) = map fst (subscribers_of event s1)"
    and c2: "count_list (map fst (subscribers_of event s2)) (toString cb) = 1"
    and idem: "subscribe event cb s1 = (Normal, s1)"
    and in2: "toString cb \<in> set (map fst (subscribers_of event s2))"
    using single_slot [OF k0 assms(2), of event] by blast
  have later: "\<exists>s3 s4. run cs s2 = Some s3 \<and>
           publishEvent event payload s3 = Some (Normal, s4) \<and>
           count_list (new_calls s3 s4) (event, toString cb, payload) = 1"
    if h: "list_all plain_op pre \<and> plain cb \<and> plain cb' \<and> list_all plain_op cs"
  proof -
    obtain s where "run pre init = Some s" "plain_bus s" "wf s"
      using run_plain_init [of pre] h by blast
    then have p0: "plain_bus s0" and w0: "wf s0" using assms(1) by simp_all
    have s1: "s1 = snd (subscribe event cb s0)" using e1 by simp
    have s2: "s2 = snd (subscribe event cb' s1)" using e2 by simp
    have p1: "plain_bus s1" unfolding s1 using p0 h by (intro plain_subscribe) simp_all
    have p2: "plain_bus s2" unfolding s2 using p1 h by (intro plain_subscribe) simp_all
    have w1: "wf s1" unfolding s1 using w0 by (rule wf_subscribe)
    have w2: "wf s2" unfolding s2 using w1 by (rule wf_subscribe)
    show ?thesis using delivered_once [OF p2 w2 _ in2] h by blast
  qed
  show ?thesis using e1 e2 keys c2 idem later by blast
qed

theorem subscribe_same_text_single_slot_witness:
  "\<exists>s1 s2.
     subscribe ''page_viewed'' listener (the (run [Subscribe ''page_viewed'' thrower] init))
       = (Normal, s1) \<and>
     subscribe ''page_viewed'' (Callback (toString listener) (call thrower)) s1 = (Normal, s2) \<and>
     map fst (subscribers_of ''page_viewed'' s2) = map fst (subscribers_of ''page_viewed'' s1) \<and>
     count_list (map fst (subscribers_of ''page_viewed'' s2)) (toString listener) = 1 \<and>
     subscribe ''page_viewed'' listener s1 = (Normal, s1) \<and>
     (\<exists>s3 s4. run [Register ''x'', Ready ''x''] s2 = Some s3 \<and>
        publishEvent ''page_viewed'' 7 s3 = Some (Normal, s4) \<and>
        count_list (new_calls s3 s4) (''page_viewed'', toString listener, 7) = 1)"
proof -
  have h0: "run [Subscribe ''page_viewed'' thrower] init
      = Some (the (run [Subscribe ''page_viewed'' thrower] init))"
    by (simp add: ev)
  have h1: "toString (Callback (toString listener) (call thrower)) = toString listener" by simp
  have h2: "list_all plain_op [Subscribe ''page_viewed'' thrower] \<and> plain listener \<and>
      plain (Callback (toString listener) (call thrower)) \<and>
      list_all plain_op [Register ''x'', Ready ''x'' :: nat op]"
    by (simp add: pl)
  show ?thesis
    using subscribe_same_text_single_slot [OF h0 h1, of "''page_viewed''"
        "[Register ''x'', Ready ''x'']" 7] h2
    by blast
qed

section \<open>The deferred queue\<close>

lemma stays_closed_now: "stays_closed cs s \<Longrightarrow> \<not> areRegistersReady s"
  by (cases cs) simp_all

lemma closed_exec:
  assumes "plain_bus s" and "\<not> areRegistersReady s" and "exec c s = Some (r, s')"
    and "\<not> areRegistersReady s'"
  shows "invoked s' = invoked s \<and>
         waitForReadyQueue s' = enqueue_all (publishes [c]) (waitForReadyQueue s)"
proof (cases c)
  case (Subscribe e cb)
  then have "s' = snd (subscribe e cb s)" using assms(3) by (auto simp: perform_Subscribe)
  then show ?thesis using Subscribe by (simp add: subscribe_effect enqueue_all_def)
next
  case (Publish e p)
  then show ?thesis using assms(2,3) by (auto simp: publish_closed enqueue_all_def)
next
  case (Register key)
  then have "s' = snd (register key s)" using assms(3) by (auto simp: perform_Register)
  then show ?thesis using Register by (simp add: register_effect enqueue_all_def)
next
  case (Ready key)
  obtain s'' where r: "ready key s = Some (Normal, s'')"
    and f: "areRegistersReady s'' = areRegistersReady (mark_ready key s)"
     "waitForReadyQueue s'' =
       (if areRegistersReady (mark_ready key s) then [] else waitForReadyQueue s)"
     "invoked s'' =
       (if areRegistersReady (mark_ready key s)
        then invoked s @ flush_deliveries (waitForReadyQueue s) s else invoked s)"
    using ready_plain [OF assms(1), of key] by blast
  have "s'' = s'" using r assms(3) Ready by simp
  then show ?thesis using f assms(4) Ready by (simp add: enqueue_all_def)
qed

lemma publishes_Cons: "publishes (c # cs) = publishes [c] @ publishes cs"
  by (cases c) simp_all

lemma enqueue_all_append: "enqueue_all (xs @ ys) q = enqueue_all ys (enqueue_all xs q)"
  by (simp add: enqueue_all_def)

lemma closed_run:
  "plain_bus s \<Longrightarrow> list_all plain_op cs \<Longrightarrow> stays_closed cs s \<Longrightarrow>
     \<exists>s2. run cs s = Some s2 \<and> plain_bus s2 \<and>
       invoked s2 = invoked s \<and>
       waitForReadyQueue s2 = enqueue_all (publishes cs) (waitForReadyQueue s) \<and>
       \<not> areRegistersReady s2"
proof (induction cs arbitrary: s)
  case Nil
  then show ?case by (simp add: enqueue_all_def)
next
  case (Cons c cs)
  have c0: "\<not> areRegistersReady s" using Cons.prems(3) by simp
  obtain r s1 where e: "exec c s = Some (r, s1)" and p1: "plain_bus s1"
    using exec_plain [of s c] Cons.prems by auto
  have sc: "stays_closed cs s1" using Cons.prems(3) e by simp
  have c1: "\<not> areRegistersReady s1" using sc by (rule stays_closed_now)
  note ce = closed_exec [OF Cons.prems(1) c0 e c1]
  have pc: "list_all plain_op cs" using Cons.prems(2) by simp
  obtain s2 where r2: "run cs s1 = Some s2" and p2: "plain_bus s2"
    and i2: "invoked s2 = invoked s1"
    and q2: "waitForReadyQueue s2 = enqueue_all (publishes cs) (waitForReadyQueue s1)"
    and c2: "\<not> areRegistersReady s2"
    using Cons.IH [OF p1 pc sc] by blast
  have "enqueue_all (publishes (c # cs)) (waitForReadyQueue s) =
        enqueue_all (publishes cs) (enqueue_all (publishes [c]) (waitForReadyQueue s))"
    by (subst publishes_Cons) (rule enqueue_all_append)
  then have "waitForReadyQueue s2 = enqueue_all (publishes (c # cs)) (waitForReadyQueue s)"
    using q2 ce by simp
  moreover have "run (c # cs) s = Some s2" using e r2 by simp
  moreover have "invoked s2 = invoked s" using i2 ce by simp
  ultimately show ?case using p2 c2 by blast
qed

lemma enqueue_all_map_of:
  "map_of (enqueue_all xs q) = map_of q ++ map_of (rev xs)"
proof (induction xs arbitrary: q)
  case Nil
  show ?case by (simp add: enqueue_all_def)
next
  case (Cons x xs)
  obtain e p where x: "x = (e, p)" by (cases x)
  have "enqueue_all (x # xs) q = enqueue_all xs (AList.update e p q)"
    by (simp add: enqueue_all_def x)
  then have "map_of (enqueue_all (x # xs) q) = map_of (AList.update e p q) ++ map_of (rev xs)"
    using Cons.IH by simp
  also have "\<dots> = map_of q ++ map_of (rev (x # xs))"
    by (simp add: update_conv' x map_add_upd_left [symmetric] fun_eq_iff map_add_def
        split: option.splits)
  finally show ?case .
qed

lemma enqueue_all_keys:
  "map fst (enqueue_all xs q) =
     map fst q @ filter (\<lambda>k. k \<notin> set (map fst q)) (first_occurrences (map fst xs))"
proof (induction xs arbitrary: q)
  case Nil
  show ?case by (simp add: enqueue_all_def)
next
  case (Cons x xs)
  obtain e p where x: "x = (e, p)" by (cases x)
  have unf: "enqueue_all (x # xs) q = enqueue_all xs (AList.update e p q)"
    by (simp add: enqueue_all_def x)
  show ?case
  proof (cases "e \<in> set (map fst q)")
    case True
    then have k: "map fst (AList.update e p q) = map fst q" by (simp add: update_keys)
    have "filter (\<lambda>k. k \<notin> set (map fst q)) (removeAll e (first_occurrences (map fst xs)))
          = filter (\<lambda>k. k \<notin> set (map fst q)) (first_occurrences (map fst xs))"
      using True by (auto simp: removeAll_filter_not_eq intro: filter_cong)
    then show ?thesis unfolding unf Cons.IH k using True x by simp
  next
    case False
    then have k: "map fst (AList.update e p q) = map fst q @ [e]" by (simp add: update_keys)
    have "filter (\<lambda>k. k \<notin> set (map fst q @ [e])) (first_occurrences (map fst xs))
          = filter (\<lambda>k. k \<notin> set (map fst q)) (removeAll e (first_occurrences (map fst xs)))"
      by (auto simp: removeAll_filter_not_eq intro: filter_cong)
    then show ?thesis unfolding unf Cons.IH k using False x by simp
  qed
qed

lemma alist_rebuild:
  "distinct (map fst xs) \<Longrightarrow> map (\<lambda>k. (k, the (map_of xs k))) (map fst xs) = xs"
proof (induction xs)
  case Nil
  show ?case by simp
next
  case (Cons x xs)
  have d: "distinct (map fst xs)" and n: "fst x \<notin> set (map fst xs)" using Cons.prems by simp_all
  have "map (\<lambda>k. (k, the (map_of (x # xs) k))) (map fst xs)
        = map (\<lambda>k. (k, the (map_of xs k))) (map fst xs)"
  proof (rule map_cong)
    fix k assume "k \<in> set (map fst xs)"
    then have "k \<noteq> fst x" using n by blast
    then show "(k, the (map_of (x # xs) k)) = (k, the (map_of xs k))"
      by (cases x) simp
  qed simp
  also have "\<dots> = xs" using d by (rule Cons.IH)
  finally have tl: "map (\<lambda>k. (k, the (map_of (x # xs) k))) (map fst xs) = xs" .
  have hd: "(fst x, the (map_of (x # xs) (fst x))) = x" by (cases x) simp
  have "map (\<lambda>k. (k, the (map_of (x # xs) k))) (map fst (x # xs))
        = (fst x, the (map_of (x # xs) (fst x)))
          # map (\<lambda>k. (k, the (map_of (x # xs) k))) (map fst xs)"
    by (simp only: list.map)
  then show ?case unfolding hd tl .
qed

lemma distinct_enqueue_all: "distinct (map fst q) \<Longrightarrow> distinct (map fst (enqueue_all xs q))"
  by (induction xs arbitrary: q) (simp_all add: enqueue_all_def distinct_update split: prod.splits)

lemma enqueue_all_empty: "enqueue_all xs [] = pending_in_order xs"
proof -
  have d: "distinct (map fst (enqueue_all xs []))" by (rule distinct_enqueue_all) simp
  have k: "map fst (enqueue_all xs []) = first_occurrences (map fst xs)"
    by (simp add: enqueue_all_keys)
  have m: "map_of (enqueue_all xs []) = map_of (rev xs)"
    by (simp add: enqueue_all_map_of)
  show ?thesis using alist_rebuild [OF d] unfolding k m pending_in_order_def by simp
qed

lemma count_deliveries:
  "count_list (deliveries e p s) (e', k, p') =
     (if e = e' \<and> p = p' then count_list (map fst (subscribers_of e' s)) k else 0)"
  unfolding deliveries_def count_calls by simp

lemma flush_deliveries_Cons:
  "flush_deliveries ((e, p) # q) s = deliveries e p s @ flush_deliveries q s"
  by (simp add: flush_deliveries_def)

lemma count_flush:
  "distinct (map fst q) \<Longrightarrow>
   count_list (flush_deliveries q s) (e, k, p) =
     (if map_of q e = Some p then count_list (map fst (subscribers_of e s)) k else 0)"
proof (induction q)
  case Nil
  show ?case by (simp add: flush_deliveries_def)
next
  case (Cons x q)
  obtain e' p' where x: "x = (e', p')" by (cases x)
  have d: "distinct (map fst q)" and n: "e' \<notin> set (map fst q)"
    using Cons.prems x by simp_all
  have none: "map_of q e' = None" using n by (simp add: map_of_eq_None_iff)
  show ?case
    unfolding x flush_deliveries_Cons count_list_append count_deliveries Cons.IH [OF d]
    using none by auto
qed


lemma publishes_set: "(e, p) \<in> set (publishes cs) \<longleftrightarrow> Publish e p \<in> set cs"
  by (induction cs rule: publishes.induct) auto

lemma enqueue_all_other:
  assumes "\<forall>p. Publish e p \<notin> set cs"
  shows "map_of (enqueue_all (publishes cs) q) e = map_of q e"
proof -
  have "e \<notin> fst ` set (rev (publishes cs))"
    using assms publishes_set [of e _ cs] by force
  then have "map_of (rev (publishes cs)) e = None"
    by (simp add: map_of_eq_None_iff)
  then show ?thesis by (simp add: enqueue_all_map_of map_add_def)
qed

lemma pending_after_closed_run:
  assumes p: "plain_bus s" and w: "wf s" and c: "\<not> areRegistersReady s"
    and e: "publish event payload s = Some (Normal, s1)"
    and pc: "list_all plain_op cs"
    and sc: "stays_closed cs s1"
    and np: "\<forall>payload'. Publish event payload' \<notin> set cs"
    and r: "run cs s1 = Some s2"
  shows "map_of (waitForReadyQueue s2) event = Some payload \<and>
         invoked s2 = invoked s \<and> plain_bus s2 \<and> wf s2 \<and> \<not> areRegistersReady s2"
proof -
  have s1: "s1 = s\<lparr>waitForReadyQueue := AList.update event payload (waitForReadyQueue s)\<rparr>"
    using e publish_closed [OF c, of event payload] by simp
  have q1: "waitForReadyQueue s1 = AList.update event payload (waitForReadyQueue s)"
    and i1: "invoked s1 = invoked s"
    by (simp_all add: s1)
  obtain x s1' where "exec (Publish event payload) s = Some (x, s1')" "plain_bus s1'" "wf s1'"
    using exec_plain [OF p, of "Publish event payload"] w by auto
  then have p1: "plain_bus s1" and w1: "wf s1" using e by simp_all
  obtain s2' where r': "run cs s1 = Some s2'" and p2: "plain_bus s2'"
    and i2: "invoked s2' = invoked s1"
    and q2: "waitForReadyQueue s2' = enqueue_all (publishes cs) (waitForReadyQueue s1)"
    and c2: "\<not> areRegistersReady s2'"
    using closed_run [OF p1 pc sc] by blast
  have eq: "s2' = s2" using r r' by simp
  obtain s2'' where "run cs s1 = Some s2''" "wf s2''"
    using run_plain [OF p1 pc w1] by blast
  then have w2: "wf s2" using r by simp
  have "map_of (waitForReadyQueue s2) event = map_of (waitForReadyQueue s1) event"
    using q2 eq enqueue_all_other [OF np] by simp
  then have "map_of (waitForReadyQueue s2) event = Some payload"
    by (simp add: q1 update_conv')
  then show ?thesis using i2 i1 p2 c2 w2 eq by simp
qed

lemma flush_at_opening:
  assumes "plain_bus s" and "areRegistersReady (mark_ready key s)"
  shows "\<exists>s'. ready key s = Some (Normal, s') \<and> areRegistersReady s' \<and>
         new_calls s s' = flush_deliveries (waitForReadyQueue s) s \<and>
         waitForReadyQueue s' = []"
proof -
  obtain s' where r: "ready key s = Some (Normal, s')"
    and f: "areRegistersReady s' = areRegistersReady (mark_ready key s)"
     "waitForReadyQueue s' =
       (if areRegistersReady (mark_ready key s) then [] else waitForReadyQueue s)"
     "invoked s' =
       (if areRegistersReady (mark_ready key s)
        then invoked s @ flush_deliveries (waitForReadyQueue s) s else invoked s)"
    using ready_plain [OF assms(1), of key] by blast
  have "areRegistersReady s' \<and>
         new_calls s s' = flush_deliveries (waitForReadyQueue s) s \<and>
         waitForReadyQueue s' = []"
    using f assms(2) by (simp add: new_calls_def)
  then show ?thesis using r by blast
qed

text \<open>
  Claim C2 as stated fails, in three ways. An earlier subscriber throws an error that the
  handler cannot read: the flush is left and the later subscriber never gets the payload.
  A subscriber calls \<open>ready\<close> again during the flush: the other subscriber gets the payload
  twice. The kind is published again before the gate opens: the first payload is never
  delivered.
\<close>

theorem pending_publish_delivered_once_counterexample:
  "map_option invoked
     (run [Subscribe ''k'' trapped, Subscribe ''k'' listener, Register ''x'', Publish ''k'' 1,
           Ready ''x''] init)
     = Some [(''k'', toString trapped, 1)] \<and>
   map_option invoked
     (run [Subscribe ''k'' reenter, Subscribe ''k'' listener, Register ''x'', Publish ''k'' 1,
           Ready ''x''] init)
     = Some [(''k'', toString reenter, 1), (''k'', toString reenter, 1),
             (''k'', toString listener, 1), (''k'', toString listener, 1)] \<and>
   map_option invoked
     (run [Subscribe ''k'' listener, Register ''x'', Publish ''k'' 1, Publish ''k'' 2,
           Ready ''x''] init)
     = Some [(''k'', toString listener, 2)]"
  by (simp add: ev)

text \<open>
  Claim C2, amended. With plain callbacks: \<open>publish(event, payload)\<close> is called while the
  gate is closed; the gate stays closed through the calls \<open>cs\<close>, none of which publishes
  the same kind again; then a \<open>ready\<close> opens the gate. No subscriber is called before that
  \<open>ready\<close>, which returns normally and has called every subscriber the kind has at that
  moment, the ones subscribed during \<open>cs\<close> included, with the payload exactly once.
\<close>

theorem pending_publish_delivered_once:
  assumes "list_all plain_op pre" and "list_all plain_op cs"
    and "run pre init = Some s" and "\<not> areRegistersReady s"
    and "publish event payload s = Some (Normal, s1)"
    and "stays_closed cs s1" and "\<forall>payload'. Publish event payload' \<notin> set cs"
    and "run cs s1 = Some s2"
    and "areRegistersReady (mark_ready key s2)"
  shows "\<exists>s3. ready key s2 = Some (Normal, s3) \<and> areRegistersReady s3 \<and>
    waitForReadyQueue s3 = [] \<and>
    new_calls s s2 = [] \<and>
    (\<forall>entry \<in> set (subscribers_of event s2).
        count_list (new_calls s2 s3) (event, fst entry, payload) = 1) \<and>
    (\<forall>callback. Subscribe event callback \<in> set cs \<longrightarrow>
        count_list (new_calls s2 s3) (event, toString callback, payload) = 1)"
proof -
  obtain s0 where "run pre init = Some s0" "plain_bus s0" "wf s0"
    using run_plain_init [OF assms(1)] by blast
  then have p: "plain_bus s" and w: "wf s" using assms(3) by simp_all
  note pa = pending_after_closed_run [OF p w assms(4) assms(5) assms(2) assms(6) assms(7) assms(8)]
  have q: "map_of (waitForReadyQueue s2) event = Some payload"
    and i: "invoked s2 = invoked s" and p2: "plain_bus s2" and w2: "wf s2"
    using pa by simp_all
  have dq: "distinct (map fst (waitForReadyQueue s2))"
    and ds: "distinct (map fst (subscribers_of event s2))"
    using w2 by (simp_all add: wf_def)
  obtain s3 where r3: "ready key s2 = Some (Normal, s3)" and o3: "areRegistersReady s3"
    and n: "new_calls s2 s3 = flush_deliveries (waitForReadyQueue s2) s2"
    and e3: "waitForReadyQueue s3 = []"
    using flush_at_opening [OF p2 assms(9)] by blast
  have cnt: "count_list (new_calls s2 s3) (event, k, payload) = 1"
    if "k \<in> set (map fst (subscribers_of event s2))" for k
    unfolding n count_flush [OF dq] using q count_distinct_one [OF ds that] by simp
  have a: "new_calls s s2 = []" using i by (simp add: new_calls_def)
  have b: "\<forall>entry \<in> set (subscribers_of event s2).
        count_list (new_calls s2 s3) (event, fst entry, payload) = 1"
    using cnt by simp
  have s1: "s1 = s\<lparr>waitForReadyQueue := AList.update event payload (waitForReadyQueue s)\<rparr>"
    using assms(5) publish_closed [OF assms(4), of event payload] by simp
  have p1: "plain_bus s1" using p by (simp add: s1 plain_bus_def)
  have c: "\<forall>callback. Subscribe event callback \<in> set cs \<longrightarrow>
        count_list (new_calls s2 s3) (event, toString callback, payload) = 1"
    using cnt subscribed_in_run [OF p1 assms(2) assms(8), of _ event] by blast
  show ?thesis using r3 o3 e3 a b c by blast
qed

theorem pending_publish_delivered_once_witness:
  "\<exists>s3. ready ''pixelB'' before_opening = Some (Normal, s3) \<and> areRegistersReady s3 \<and>
    waitForReadyQueue s3 = [] \<and>
    new_calls pixels_registered before_opening = [] \<and>
    (\<forall>entry \<in> set (subscribers_of ''cart_updated'' before_opening).
        count_list (new_calls before_opening s3) (''cart_updated'', fst entry, 1) = 1) \<and>
    (\<forall>callback. Subscribe ''cart_updated'' callback
          \<in> set [Subscribe ''cart_updated'' listener, Ready ''pixelA''] \<longrightarrow>
        count_list (new_calls before_opening s3) (''cart_updated'', toString callback, 1) = 1)"
proof -
  have h1: "list_all plain_op [Register ''pixelA'', Register ''pixelB'' :: nat op]" by simp
  have h2: "list_all plain_op [Subscribe ''cart_updated'' listener, Ready ''pixelA'']"
    by (simp add: pl)
  have h3: "run [Register ''pixelA'', Register ''pixelB''] init = Some pixels_registered"
    by (simp add: ev sc)
  have h4: "\<not> areRegistersReady pixels_registered" by (simp add: ev sc)
  have h5: "publish ''cart_updated'' 1 pixels_registered = Some (Normal, first_published)"
    by (simp add: ev sc)
  have h6: "stays_closed [Subscribe ''cart_updated'' listener, Ready ''pixelA''] first_published"
    by (simp add: ev sc)
  have h7: "\<forall>payload'. Publish ''cart_updated'' payload'
      \<notin> set [Subscribe ''cart_updated'' listener, Ready ''pixelA'']"
    by simp
  have h8: "run [Subscribe ''cart_updated'' listener, Ready ''pixelA''] first_published
      = Some before_opening"
    by (simp add: ev sc)
  have h9: "areRegistersReady (mark_ready ''pixelB'' before_opening)" by (simp add: ev sc)
  show ?thesis
    by (rule pending_publish_delivered_once [OF h1 h2 h3 h4 h5 h6 h7 h8 h9])
qed




lemma three_publishes_queue:
  "waitForReadyQueue three_publishes = [(''a'', 3), (''b'', 2)] \<and>
   pending_in_order (publishes [Publish ''a'' 1, Publish ''b'' 2, Publish ''a'' (3::nat)]) = [(''a'', 3), (''b'', 2)]"
  by (simp add: ev sc pending_in_order_def)

text \<open>
  Claim C8 as stated fails. Two kinds are pending when the gate opens; the subscriber of
  the first throws an error that the handler cannot read, so the second kind is never
  delivered and the queue still holds both pairs after the flush.
\<close>

theorem flush_in_first_enqueue_order_counterexample:
  "map_option fst
     (ready ''x'' (the (run [Subscribe ''k'' trapped, Subscribe ''k2'' listener, Register ''x'',
                Publish ''k'' 1, Publish ''k2'' 2] init)))
     = Some (Abrupt (OtherValue ''getter'')) \<and>
   map_option (invoked \<circ> snd)
     (ready ''x'' (the (run [Subscribe ''k'' trapped, Subscribe ''k2'' listener, Register ''x'',
                Publish ''k'' 1, Publish ''k2'' 2] init)))
     = Some [(''k'', toString trapped, 1)] \<and>
   map_option (waitForReadyQueue \<circ> snd)
     (ready ''x'' (the (run [Subscribe ''k'' trapped, Subscribe ''k2'' listener, Register ''x'',
                Publish ''k'' 1, Publish ''k2'' 2] init)))
     = Some [(''k'', 1), (''k2'', 2)] \<and>
   map_option (areRegistersReady \<circ> snd)
     (ready ''x'' (the (run [Subscribe ''k'' trapped, Subscribe ''k2'' listener, Register ''x'',
                Publish ''k'' 1, Publish ''k2'' 2] init)))
     = Some True"
  by (simp add: ev)

text \<open>
  Claim C8, amended. With plain callbacks, starting with an empty queue and a gate that
  stays closed through \<open>cs\<close>: the queue holds the published kinds in the order of their
  first publish, each with its last payload; the \<open>ready\<close> that opens the gate returns
  normally, has delivered them in that order and leaves the queue empty.
\<close>

theorem flush_in_first_enqueue_order:
  assumes "list_all plain_op pre" and "list_all plain_op cs"
    and "run pre init = Some s" and "waitForReadyQueue s = []"
    and "stays_closed cs s" and "run cs s = Some s2"
    and "areRegistersReady (mark_ready key s2)"
  shows "\<exists>s3. ready key s2 = Some (Normal, s3) \<and>
    waitForReadyQueue s2 = pending_in_order (publishes cs) \<and>
    new_calls s2 s3 =
      concat (map (\<lambda>(event, payload).
                    map (\<lambda>entry. (event, fst entry, payload)) (subscribers_of event s2))
                  (pending_in_order (publishes cs))) \<and>
    waitForReadyQueue s3 = []"
proof -
  obtain s0 where "run pre init = Some s0" "plain_bus s0"
    using run_plain_init [OF assms(1)] by blast
  then have p: "plain_bus s" using assms(3) by simp
  obtain z where "run cs s = Some z" "plain_bus z"
    "waitForReadyQueue z = enqueue_all (publishes cs) (waitForReadyQueue s)"
    using closed_run [OF p assms(2) assms(5)] by blast
  then have p2: "plain_bus s2"
    and q: "waitForReadyQueue s2 = pending_in_order (publishes cs)"
    using assms(4,6) by (simp_all add: enqueue_all_empty)
  obtain s3 where r3: "ready key s2 = Some (Normal, s3)"
    and n: "new_calls s2 s3 = flush_deliveries (waitForReadyQueue s2) s2"
    and e3: "waitForReadyQueue s3 = []"
    using flush_at_opening [OF p2 assms(7)] by blast
  have "new_calls s2 s3 =
      concat (map (\<lambda>(event, payload).
                    map (\<lambda>entry. (event, fst entry, payload)) (subscribers_of event s2))
                  (pending_in_order (publishes cs)))"
    using n q by (simp add: flush_deliveries_def deliveries_def)
  then show ?thesis using r3 q e3 by blast
qed

theorem flush_in_first_enqueue_order_witness:
  "\<exists>s3. ready ''x'' three_publishes = Some (Normal, s3) \<and>
    waitForReadyQueue three_publishes
      = pending_in_order (publishes [Publish ''a'' 1, Publish ''b'' 2, Publish ''a'' 3]) \<and>
    new_calls three_publishes s3 =
      concat (map (\<lambda>(event, payload).
                    map (\<lambda>entry. (event, fst entry, payload))
                      (subscribers_of event three_publishes))
                  (pending_in_order (publishes [Publish ''a'' 1, Publish ''b'' 2, Publish ''a'' 3]))) \<and>
    waitForReadyQueue s3 = []"
proof -
  have h1: "list_all plain_op [Subscribe ''a'' listener, Subscribe ''b'' listener, Register ''x'']"
    by (simp add: pl)
  have h2: "list_all plain_op [Publish ''a'' 1, Publish ''b'' 2, Publish ''a'' (3::nat)]" by simp
  have h3: "run [Subscribe ''a'' listener, Subscribe ''b'' listener, Register ''x''] init
      = Some two_kinds"
    by (simp add: ev sc)
  have h4: "waitForReadyQueue two_kinds = []" by (simp add: ev sc)
  have h5: "stays_closed [Publish ''a'' 1, Publish ''b'' 2, Publish ''a'' 3] two_kinds"
    by (simp add: ev sc)
  have h6: "run [Publish ''a'' 1, Publish ''b'' 2, Publish ''a'' 3] two_kinds
      = Some three_publishes"
    by (simp add: ev sc)
  have h7: "areRegistersReady (mark_ready ''x'' three_publishes)" by (simp add: ev sc)
  show ?thesis
    by (rule flush_in_first_enqueue_order [OF h1 h2 h3 h4 h5 h6 h7])
qed

end
